theory Spec2Isabelle
  imports Main "HOL-Library.Word" "HOL-Library.Sublist"
begin

section \<open>wav2png: samples, the full-scale constant and the span arithmetic\<close>

text \<open>
  The embedding follows \<^verbatim>\<open>src/wav2png.cpp\<close>. Integer widths are those of the
  common 64-bit ABI: \<^verbatim>\<open>short\<close> is 16 bits, \<^verbatim>\<open>int\<close> and \<^verbatim>\<open>unsigned\<close> are 32 bits,
  \<^verbatim>\<open>size_t\<close> and \<^verbatim>\<open>sf_count_t\<close> are 64 bits. Values of type \<^verbatim>\<open>size_t\<close> are
  written as \<open>nat\<close>: every \<^verbatim>\<open>size_t\<close> of the program is the zero extension of a
  32-bit value or a product of two of them, so none of them wraps. The \<^verbatim>\<open>assert\<close>s
  of the source are taken as compiled in: a failed assertion ends the run.
\<close>

text \<open>\<^verbatim>\<open>typedef short sample_type\<close>: a 16-bit word, read as two's complement by \<open>sint\<close>.\<close>

type_synonym sample_type = "16 word"

text \<open>\<^verbatim>\<open>sample_scale<short>::value = 1 << (sizeof(short)*8-1)\<close>, an \<^verbatim>\<open>unsigned short\<close>.\<close>

definition sample_scale :: "16 word" where
  "sample_scale = push_bit (2 * 8 - 1) 1"

text \<open>\<^verbatim>\<open>clamp(x, min, max) = std::max(min, std::min(max, x))\<close>, instantiated at \<^verbatim>\<open>size_t\<close>.\<close>

definition clamp :: "nat \<Rightarrow> nat \<Rightarrow> nat \<Rightarrow> nat" where
  "clamp x lo hi = max lo (min hi x)"

text \<open>
  Line 122: \<^verbatim>\<open>clamp<size_t>((h-(-min*h/sample_scale<sample_type>::value))/2, 0, h)\<close>.
  \<^verbatim>\<open>min\<close> is promoted to \<^verbatim>\<open>int\<close> and negated there; the product with the
  \<^verbatim>\<open>unsigned\<close> \<open>h\<close>, the quotient, the difference and the halving are all 32-bit
  unsigned operations.
\<close>

definition y1_px :: "sample_type \<Rightarrow> 32 word \<Rightarrow> nat" where
  "y1_px mn h =
     clamp (unat ((h - (word_of_int (- sint mn) * h) div ucast sample_scale) div 2)) 0 (unat h)"

text \<open>Line 126: \<^verbatim>\<open>clamp<size_t>((h+max*h/sample_scale<sample_type>::value)/2, 0, h)\<close>.\<close>

definition y2_px :: "sample_type \<Rightarrow> 32 word \<Rightarrow> nat" where
  "y2_px mx h =
     clamp (unat ((h + (word_of_int (sint mx) * h) div ucast sample_scale) div 2)) 0 (unat h)"

text \<open>
  The formulas as the specification writes them, over the unbounded integers, with
  truncating division (all operands are non-negative where the formulas are used).
\<close>

definition spec_clamp :: "int \<Rightarrow> int \<Rightarrow> int \<Rightarrow> int" where
  "spec_clamp x lo hi = max lo (min hi x)"

definition spec_y1 :: "int \<Rightarrow> int \<Rightarrow> int \<Rightarrow> int" where
  "spec_y1 mn h full_scale = spec_clamp ((h - (- mn * h div full_scale)) div 2) 0 h"

definition spec_y2 :: "int \<Rightarrow> int \<Rightarrow> int \<Rightarrow> int" where
  "spec_y2 mx h full_scale = spec_clamp ((h + mx * h div full_scale) div 2) 0 h"

section \<open>Pixels and images\<close>

datatype rgba_pixel = rgba_pixel (red: "8 word") (green: "8 word") (blue: "8 word") (alpha: "8 word")

text \<open>
  Modelled from the spec: the pixel buffer of the external raster-image library, a grid of
  RGBA pixels of fixed width and height, addressed by column and row, row 0 at the top.
  It is stored as the library stores it, a vector of rows. Next to each pixel the model
  keeps a ghost counter, the number of assignments to that pixel since the image was
  constructed; no operation of the program reads it.
\<close>

record image =
  get_width :: nat
  get_height :: nat
  pixbuf :: "(rgba_pixel \<times> nat) list list"

definition cell :: "image \<Rightarrow> nat \<Rightarrow> nat \<Rightarrow> rgba_pixel \<times> nat" where
  "cell img x y = pixbuf img ! y ! x"

definition get_pixel :: "image \<Rightarrow> nat \<Rightarrow> nat \<Rightarrow> rgba_pixel" where
  "get_pixel img x y = fst (cell img x y)"

definition assignments :: "image \<Rightarrow> nat \<Rightarrow> nat \<Rightarrow> nat" where
  "assignments img x y = snd (cell img x y)"

text \<open>The constructor \<^verbatim>\<open>png::image(width, height)\<close>: default pixels, none assigned yet.\<close>

definition default_pixel :: rgba_pixel where
  "default_pixel = rgba_pixel 0 0 0 0"

definition sized_image :: "nat \<Rightarrow> nat \<Rightarrow> image" where
  "sized_image w h =
     \<lparr>get_width = w, get_height = h, pixbuf = replicate h (replicate w (default_pixel, 0))\<rparr>"

text \<open>
  The invariant of an image object: as many rows as its height, each as long as its
  width, and dimensions that fit the library's 32-bit dimension type.
\<close>

definition well_formed :: "image \<Rightarrow> bool" where
  "well_formed img \<longleftrightarrow>
     length (pixbuf img) = get_height img \<and>
     list_all (\<lambda>row. length row = get_width img) (pixbuf img) \<and>
     get_width img < 2 ^ 32 \<and> get_height img < 2 ^ 32"

text \<open>
  What can go wrong inside the renderer: a failed \<^verbatim>\<open>assert\<close> (with its source line),
  an access outside a buffer, the exception of a vector constructed with a negative
  length, and a loop that does not return.
\<close>

datatype failure = Assertion_failed nat | Out_of_range | Length_error | Diverges

definition put_pixel :: "image \<Rightarrow> nat \<Rightarrow> nat \<Rightarrow> rgba_pixel \<Rightarrow> image" where
  "put_pixel img x y c =
     img\<lparr>pixbuf := (pixbuf img)[y := (pixbuf img ! y)[x := (c, Suc (assignments img x y))]]\<rparr>"

definition set_pixel :: "image \<Rightarrow> nat \<Rightarrow> nat \<Rightarrow> rgba_pixel \<Rightarrow> failure + image" where
  "set_pixel img x y c =
     (if x < get_width img \<and> y < get_height img then Inr (put_pixel img x y c)
      else Inl Out_of_range)"

section \<open>The audio source\<close>

text \<open>
  Modelled from the spec: the handle of the external audio-decoding library. It reports
  a frame count (\<^verbatim>\<open>sf_count_t\<close>) and a channel count (\<^verbatim>\<open>int\<close>) and holds a read
  cursor and an error flag. The model keeps the interleaved samples that the reads can
  still deliver (\<open>unread\<close>), the error code with which a read fails where these samples
  end (\<open>read_failure\<close>: 0 when they end at the regular end of the stream, another value
  when the stream cannot be decoded beyond them), and the error flag (\<open>error\<close>, what
  \<^verbatim>\<open>wav.error()\<close> returns: 0 for no error). A read of \<open>k\<close> frames copies the next whole frames, at most
  \<open>k\<close>, to the front of the caller's buffer, leaves the rest of the buffer as it was,
  advances the cursor and returns the number of frames copied. It returns less than \<open>k\<close>
  near the end of the stream and where decoding fails; in the second case it sets the
  error flag.
\<close>

record sndfile =
  frames :: int
  sf_channels :: "32 word"
  unread :: "sample_type list"
  read_failure :: int
  error :: int

text \<open>
  \<^verbatim>\<open>wav.channels()\<close> as a count. A handle never reports a negative channel count; the
  model reads such a count as no channels, except in the product of line 95.
\<close>

definition channels :: "sndfile \<Rightarrow> nat" where
  "channels wav = nat (sint (sf_channels wav))"

definition frames_read :: "sndfile \<Rightarrow> nat \<Rightarrow> nat" where
  "frames_read wav k = min k (length (unread wav) div channels wav)"

definition advance :: "nat \<Rightarrow> sndfile \<Rightarrow> sndfile" where
  "advance k wav =
     wav\<lparr>unread := drop (frames_read wav k * channels wav) (unread wav),
         error := (if frames_read wav k < k \<and> read_failure wav \<noteq> 0
                      then read_failure wav else error wav)\<rparr>"

definition readf :: "sndfile \<Rightarrow> sample_type list \<Rightarrow> nat \<Rightarrow> nat \<times> sample_type list \<times> sndfile" where
  "readf wav block k =
     (let n = frames_read wav k * channels wav
      in (frames_read wav k, take n (unread wav) @ drop n block, advance k wav))"

text \<open>The frame count agrees with the samples that can be read.\<close>

definition consistent :: "sndfile \<Rightarrow> bool" where
  "consistent wav \<longleftrightarrow>
     0 < channels wav \<and> 0 \<le> frames wav \<and>
     int (length (unread wav)) = frames wav * int (channels wav)"

section \<open>The renderer: \<^verbatim>\<open>compute_waveform\<close>\<close>

text \<open>Line 83: \<^verbatim>\<open>wav.frames() < (sf_count_t)out_image.get_width()\<close>.\<close>

definition not_enough_samples :: "sndfile \<Rightarrow> image \<Rightarrow> bool" where
  "not_enough_samples wav out_image \<longleftrightarrow> frames wav < int (get_width out_image)"

text \<open>Line 86: the smaller image, \<^verbatim>\<open>wav.frames()>0?wav.frames():1\<close> wide.\<close>

definition small_image :: "sndfile \<Rightarrow> image \<Rightarrow> image" where
  "small_image wav out_image =
     sized_image (nat (if frames wav > 0 then frames wav else 1)) (get_height out_image)"

text \<open>Line 88: the image that the columns are painted into.\<close>

definition render_target :: "sndfile \<Rightarrow> image \<Rightarrow> image" where
  "render_target wav out_image =
     (if not_enough_samples wav out_image then small_image wav out_image else out_image)"

text \<open>
  Line 94: \<^verbatim>\<open>std::max<int>(1, wav.frames() / image.get_width())\<close>. The quotient is a
  64-bit value and \<^verbatim>\<open>std::max<int>\<close> takes it as an \<^verbatim>\<open>int\<close>, which keeps its low
  32 bits. The dividend is never negative for an opened file, so that truncating and
  flooring division agree.
\<close>

definition to_int :: "int \<Rightarrow> int" where
  "to_int k = sint (word_of_int k :: 32 word)"

definition frames_per_pixel :: "sndfile \<Rightarrow> image \<Rightarrow> int" where
  "frames_per_pixel wav img = max 1 (to_int (frames wav div int (get_width img)))"

text \<open>
  Line 95: \<^verbatim>\<open>wav.channels() * frames_per_pixel\<close>, a product of two \<^verbatim>\<open>int\<close>s that is
  an \<^verbatim>\<open>int\<close> again: it keeps the low 32 bits.
\<close>

definition samples_per_pixel :: "sndfile \<Rightarrow> image \<Rightarrow> int" where
  "samples_per_pixel wav img = to_int (sint (sf_channels wav) * frames_per_pixel wav img)"

text \<open>\<^verbatim>\<open>std::min\<close> and \<^verbatim>\<open>std::max\<close> on \<^verbatim>\<open>short\<close>: signed comparison.\<close>

definition std_min :: "sample_type \<Rightarrow> sample_type \<Rightarrow> sample_type" where
  "std_min a b = (if b <s a then b else a)"

definition std_max :: "sample_type \<Rightarrow> sample_type \<Rightarrow> sample_type" where
  "std_max a b = (if a <s b then b else a)"

text \<open>
  Lines 114 to 118: \<^verbatim>\<open>for (int i=0; i<n; i+=wav.channels())\<close>. With no channels the
  step is 0 and the loop does not return once entered.
\<close>

partial_function (option) find_min_max ::
  "nat \<Rightarrow> nat \<Rightarrow> sample_type list \<Rightarrow> nat \<Rightarrow> sample_type \<Rightarrow> sample_type
     \<Rightarrow> (sample_type \<times> sample_type) option" where
  "find_min_max ch n block i mn mx =
     (if i < n
      then find_min_max ch n block (i + ch) (std_min mn (block ! i)) (std_max mx (block ! i))
      else Some (mn, mx))"

declare find_min_max.simps [code]

text \<open>Lines 130 to 139: \<^verbatim>\<open>for (y = a; y < b; ++y) image.set_pixel(x, y, c)\<close>, over \<open>[a..<b]\<close>.\<close>

fun fill_span :: "image \<Rightarrow> nat \<Rightarrow> nat list \<Rightarrow> rgba_pixel \<Rightarrow> failure + image" where
  "fill_span img x [] c = Inr img"
| "fill_span img x (y # ys) c =
     (case set_pixel img x y c of Inl e \<Rightarrow> Inl e | Inr img' \<Rightarrow> fill_span img' x ys c)"

text \<open>
  Lines 108 to 118: the read of \<^verbatim>\<open>frames_per_pixel\<close> frames into \<^verbatim>\<open>block\<close>, the
  assertion \<^verbatim>\<open>n <= block.size()\<close> and the scan of the left channel. The read goes
  through a raw pointer and does not change the size of the vector, so the assertion
  compares with the length that \<^verbatim>\<open>block\<close> had before the read.
\<close>

definition read_min_max ::
  "sndfile \<Rightarrow> sample_type list \<Rightarrow> int
     \<Rightarrow> failure + ((sample_type \<times> sample_type) \<times> sample_type list \<times> sndfile)" where
  "read_min_max wav block fpp =
     (case readf wav block (nat fpp) of (got, block', wav') \<Rightarrow>
        (let n = got * channels wav in
         if \<not> n \<le> length block then Inl (Assertion_failed 109)
         else (case find_min_max (channels wav) n block' 0 0 0 of
                 None \<Rightarrow> Inl Diverges
               | Some m \<Rightarrow> Inr (m, block', wav'))))"

text \<open>Lines 122 to 127: the two boundaries and their assertions.\<close>

definition column_span :: "32 word \<Rightarrow> sample_type \<Rightarrow> sample_type \<Rightarrow> failure + (nat \<times> nat)" where
  "column_span h mn mx =
     (let y1 = y1_px mn h in
      if \<not> (0 \<le> y1 \<and> y1 \<le> unat (h div 2)) then Inl (Assertion_failed 123)
      else (let y2 = y2_px mx h in
            if \<not> (unat (h div 2) \<le> y2 \<and> y2 \<le> unat h) then Inl (Assertion_failed 127)
            else Inr (y1, y2)))"

text \<open>Lines 130 to 139: the three spans of a column.\<close>

definition paint_column ::
  "image \<Rightarrow> nat \<Rightarrow> nat \<Rightarrow> nat \<Rightarrow> nat \<Rightarrow> rgba_pixel \<Rightarrow> rgba_pixel \<Rightarrow> failure + image" where
  "paint_column img x y1 y2 h bg_color fg_color =
     (case fill_span img x [0..<y1] bg_color of
        Inl e \<Rightarrow> Inl e
      | Inr img1 \<Rightarrow>
          (case fill_span img1 x [y1..<y2] fg_color of
             Inl e \<Rightarrow> Inl e
           | Inr img2 \<Rightarrow> fill_span img2 x [y2..<h] bg_color))"

text \<open>
  Lines 107 to 139, the body of the loop over the columns. The state is the audio
  source, the sample buffer \<^verbatim>\<open>block\<close> and the image. The progress output to the
  error stream (lines 142 to 145) is left out.
\<close>

type_synonym render_state = "sndfile \<times> sample_type list \<times> image"

definition render_column ::
  "32 word \<Rightarrow> rgba_pixel \<Rightarrow> rgba_pixel \<Rightarrow> int \<Rightarrow> nat \<Rightarrow> render_state \<Rightarrow> failure + render_state" where
  "render_column h bg_color fg_color fpp x s =
     (case s of (wav, block, img) \<Rightarrow>
        (case read_min_max wav block fpp of
           Inl e \<Rightarrow> Inl e
         | Inr ((mn, mx), block', wav') \<Rightarrow>
             (case column_span h mn mx of
                Inl e \<Rightarrow> Inl e
              | Inr (y1, y2) \<Rightarrow>
                  (case paint_column img x y1 y2 (unat h) bg_color fg_color of
                     Inl e \<Rightarrow> Inl e
                   | Inr img' \<Rightarrow> Inr (wav', block', img')))))"

text \<open>Line 105: \<^verbatim>\<open>for (size_t x = 0; x < image.get_width(); ++x)\<close>, over the columns given.\<close>

fun render_columns ::
  "32 word \<Rightarrow> rgba_pixel \<Rightarrow> rgba_pixel \<Rightarrow> int \<Rightarrow> nat list \<Rightarrow> render_state \<Rightarrow> failure + render_state" where
  "render_columns h bg_color fg_color fpp [] s = Inr s"
| "render_columns h bg_color fg_color fpp (x # xs) s =
     (case render_column h bg_color fg_color fpp x s of
        Inl e \<Rightarrow> Inl e
      | Inr s' \<Rightarrow> render_columns h bg_color fg_color fpp xs s')"

text \<open>
  Lines 156 to 158, the body of the upscaling loops:
  \<^verbatim>\<open>xx = x*small_image.get_width()/out_image.get_width()\<close>, the assertion
  \<^verbatim>\<open>xx < out_image.get_width()\<close> and \<^verbatim>\<open>out_image[y][x] = small_image[y][xx]\<close>.
\<close>

definition copy_pixel :: "image \<Rightarrow> nat \<Rightarrow> nat \<Rightarrow> image \<Rightarrow> failure + image" where
  "copy_pixel small y x out_image =
     (let xx = x * get_width small div get_width out_image in
      if \<not> xx < get_width out_image then Inl (Assertion_failed 157)
      else if \<not> (y < get_height small \<and> xx < get_width small) then Inl Out_of_range
      else set_pixel out_image x y (get_pixel small xx y))"

fun upscale_row :: "image \<Rightarrow> nat \<Rightarrow> nat list \<Rightarrow> image \<Rightarrow> failure + image" where
  "upscale_row small y [] out_image = Inr out_image"
| "upscale_row small y (x # xs) out_image =
     (case copy_pixel small y x out_image of
        Inl e \<Rightarrow> Inl e
      | Inr out' \<Rightarrow> upscale_row small y xs out')"

fun upscale_rows :: "image \<Rightarrow> nat list \<Rightarrow> image \<Rightarrow> failure + image" where
  "upscale_rows small [] out_image = Inr out_image"
| "upscale_rows small (y # ys) out_image =
     (case upscale_row small y [0..<get_width out_image] out_image of
        Inl e \<Rightarrow> Inl e
      | Inr out' \<Rightarrow> upscale_rows small ys out')"

definition upscale :: "image \<Rightarrow> image \<Rightarrow> failure + image" where
  "upscale small out_image = upscale_rows small [0..<get_height out_image] out_image"

text \<open>
  The painting stage (lines 75 to 146): the choice of the image to paint into, the
  assertion of line 90, the sample buffer and the loop over the columns. Line 99
  constructs the buffer with \<^verbatim>\<open>samples_per_pixel\<close> elements; the constructor takes the
  \<^verbatim>\<open>int\<close> as a \<^verbatim>\<open>size_t\<close>, and a negative one is a length beyond every vector's
  maximal size, for which the constructor throws.
\<close>

definition render :: "sndfile \<Rightarrow> image \<Rightarrow> rgba_pixel \<Rightarrow> rgba_pixel \<Rightarrow> failure + render_state" where
  "render wav out_image bg_color fg_color =
     (let h = (word_of_nat (get_height out_image) :: 32 word);
          img = render_target wav out_image in
      if \<not> get_width img > 0 then Inl (Assertion_failed 90) else
      if samples_per_pixel wav img < 0 then Inl Length_error else
      let block = replicate (nat (samples_per_pixel wav img)) (0 :: sample_type) in
      render_columns h bg_color fg_color (frames_per_pixel wav img)
        [0..<get_width img] (wav, block, img))"

text \<open>\<^verbatim>\<open>compute_waveform\<close>: the painting stage, then the upscaling (lines 151 to 160).\<close>

definition compute_waveform :: "sndfile \<Rightarrow> image \<Rightarrow> rgba_pixel \<Rightarrow> rgba_pixel \<Rightarrow> failure + image" where
  "compute_waveform wav out_image bg_color fg_color =
     (case render wav out_image bg_color fg_color of
        Inl e \<Rightarrow> Inl e
      | Inr (wav', block', img) \<Rightarrow>
          if not_enough_samples wav out_image then upscale img out_image else Inr img)"

section \<open>What the loops compute\<close>

text \<open>
  Closed forms of the loops above, used to state what the renderer does. The pixels
  of a column after one \<^verbatim>\<open>set_pixel\<close> loop and after the three loops of a column:
\<close>

definition painted :: "image \<Rightarrow> nat \<Rightarrow> nat list \<Rightarrow> rgba_pixel \<Rightarrow> image" where
  "painted img x ys c = fold (\<lambda>y i. put_pixel i x y c) ys img"

definition painted_column ::
  "image \<Rightarrow> nat \<Rightarrow> nat \<Rightarrow> nat \<Rightarrow> nat \<Rightarrow> rgba_pixel \<Rightarrow> rgba_pixel \<Rightarrow> image" where
  "painted_column img x y1 y2 h bg_color fg_color =
     painted (painted (painted img x [0..<y1] bg_color) x [y1..<y2] fg_color) x [y2..<h] bg_color"

text \<open>
  The samples of channel 0 among the first \<open>got\<close> frames of an interleaved sequence,
  and the minimum and maximum of a sequence of samples, both seeded with 0.
\<close>

definition left_channel :: "nat \<Rightarrow> nat \<Rightarrow> sample_type list \<Rightarrow> sample_type list" where
  "left_channel ch got xs = map (\<lambda>j. xs ! (j * ch)) [0..<got]"

definition min_max_step ::
  "sample_type \<Rightarrow> sample_type \<times> sample_type \<Rightarrow> sample_type \<times> sample_type" where
  "min_max_step s m = (std_min (fst m) s, std_max (snd m) s)"

definition envelope :: "sample_type list \<Rightarrow> sample_type \<times> sample_type" where
  "envelope xs = fold min_max_step xs (0, 0)"

text \<open>
  The audio source when the \<open>k\<close>-th column is reached, and the minimum and maximum
  that the column at a given source state gets.
\<close>

definition source_at :: "int \<Rightarrow> nat \<Rightarrow> sndfile \<Rightarrow> sndfile" where
  "source_at fpp k wav = (advance (nat fpp) ^^ k) wav"

definition column_min_max :: "int \<Rightarrow> sndfile \<Rightarrow> sample_type \<times> sample_type" where
  "column_min_max fpp wav =
     envelope (left_channel (channels wav) (frames_read wav (nat fpp)) (unread wav))"

text \<open>
  The sample buffer after a read of \<open>k\<close> frames, and the colour of row \<open>y\<close> in a column
  whose minimum and maximum are \<open>m\<close>: foreground from \<open>y1\<close> up to, not including,
  \<open>y2\<close>, background elsewhere.
\<close>

definition refilled :: "sndfile \<Rightarrow> sample_type list \<Rightarrow> nat \<Rightarrow> sample_type list" where
  "refilled wav block k = fst (snd (readf wav block k))"

definition column_pixel ::
  "32 word \<Rightarrow> rgba_pixel \<Rightarrow> rgba_pixel \<Rightarrow> sample_type \<times> sample_type \<Rightarrow> nat \<Rightarrow> rgba_pixel" where
  "column_pixel h bg_color fg_color m y =
     (if y1_px (fst m) h \<le> y \<and> y < y2_px (snd m) h then fg_color else bg_color)"

text \<open>
  For a run of the renderer on \<open>wav\<close> and \<open>out_image\<close>: the height as line 75 reads
  it, the number of columns painted, the minimum and maximum of painted column \<open>x\<close>, and
  the colour of its row \<open>y\<close>.
\<close>

definition render_height :: "image \<Rightarrow> 32 word" where
  "render_height out_image = word_of_nat (get_height out_image)"

definition render_width :: "sndfile \<Rightarrow> image \<Rightarrow> nat" where
  "render_width wav out_image = get_width (render_target wav out_image)"

definition column_envelope :: "sndfile \<Rightarrow> image \<Rightarrow> nat \<Rightarrow> sample_type \<times> sample_type" where
  "column_envelope wav out_image x =
     column_min_max (frames_per_pixel wav (render_target wav out_image))
       (source_at (frames_per_pixel wav (render_target wav out_image)) x wav)"

definition rendered_pixel ::
  "sndfile \<Rightarrow> image \<Rightarrow> rgba_pixel \<Rightarrow> rgba_pixel \<Rightarrow> nat \<Rightarrow> nat \<Rightarrow> rgba_pixel" where
  "rendered_pixel wav out_image bg_color fg_color x y =
     column_pixel (render_height out_image) bg_color fg_color (column_envelope wav out_image x) y"

text \<open>
  The channel count is not negative and the product of line 95 stays within
  \<^verbatim>\<open>int\<close>.
\<close>

definition product_in_range :: "sndfile \<Rightarrow> image \<Rightarrow> bool" where
  "product_in_range wav out_image \<longleftrightarrow>
     0 \<le> sint (sf_channels wav) \<and>
     sint (sf_channels wav) * frames_per_pixel wav (render_target wav out_image) < 2147483648"

text \<open>Two images of the same width and height.\<close>

definition same_shape :: "image \<Rightarrow> image \<Rightarrow> bool" where
  "same_shape a b \<longleftrightarrow> get_width a = get_width b \<and> get_height a = get_height b"

definition same_state :: "render_state \<Rightarrow> render_state \<Rightarrow> bool" where
  "same_state s t \<longleftrightarrow>
     fst s = fst t \<and> fst (snd s) = fst (snd t) \<and> same_shape (snd (snd s)) (snd (snd t))"

text \<open>The pixel values of an image, without the ghost counters.\<close>

definition pixels :: "image \<Rightarrow> rgba_pixel list list" where
  "pixels img = map (map fst) (pixbuf img)"

section \<open>The program: \<^verbatim>\<open>main\<close>\<close>








section \<open>Example inputs\<close>

text \<open>
  A stereo source of three frames whose left channel holds 100, -4096 and 32767, a
  silent mono source of two frames, a source without frames, and two colours.
\<close>

definition example_wav :: sndfile where
  "example_wav =
     \<lparr>frames = 3, sf_channels = 2, unread = [100, 7, 0xF000, 7, 0x7FFF, 7],
      read_failure = 0, error = 0\<rparr>"

definition silent_wav :: sndfile where
  "silent_wav =
     \<lparr>frames = 2, sf_channels = 1, unread = [0, 0], read_failure = 0, error = 0\<rparr>"

definition empty_wav :: sndfile where
  "empty_wav = \<lparr>frames = 0, sf_channels = 1, unread = [], read_failure = 0, error = 0\<rparr>"

definition white :: rgba_pixel where
  "white = rgba_pixel 255 255 255 255"

definition black :: rgba_pixel where
  "black = rgba_pixel 0 0 0 255"







section \<open>The span arithmetic\<close>

lemma sample_scale_value: "sample_scale = 32768"
  by (simp add: sample_scale_def)

lemma sample_range: "- 32768 \<le> sint (s :: 16 word)" "sint (s :: 16 word) < 32768"
  using sint_ge [of s] sint_lt [of s] by simp_all

lemma unat_word_of_int_small:
  assumes "0 \<le> k" "k < 4294967296"
  shows "unat (word_of_int k :: 32 word) = nat k"
proof -
  have "k mod 4294967296 = k" using assms by simp
  then have "uint (word_of_int k :: 32 word) = k"
    by (simp add: uint_word_of_int take_bit_eq_mod)
  then show ?thesis by (simp only: unat_eq_nat_uint)
qed

lemma neg_sample_word:
  assumes "sint (mn :: 16 word) \<le> 0"
  shows "unat (word_of_int (- sint mn) :: 32 word) = nat (- sint mn)"
  by (rule unat_word_of_int_small) (use assms sample_range(1) [of mn] in simp_all)

lemma pos_sample_word:
  assumes "0 \<le> sint (mx :: 16 word)"
  shows "unat (word_of_int (sint mx) :: 32 word) = nat (sint mx)"
  by (rule unat_word_of_int_small) (use assms sample_range(2) [of mx] in simp_all)

lemma quot_le:
  fixes a H :: nat
  assumes "a \<le> 32768" "H < 2 ^ 32"
  shows "((a * H) mod 2 ^ 32) div 32768 \<le> H"
proof (cases "a * H < 2 ^ 32")
  case True
  have "a * H div 32768 \<le> 32768 * H div 32768"
    by (rule div_le_mono) (use assms in simp)
  then show ?thesis using True by simp
next
  case False
  then have "2 ^ 32 \<le> 32768 * H" using assms(1)
    by (meson linorder_not_less mult_le_mono1 order_trans)
  then have "131072 \<le> H" by simp
  moreover have "((a * H) mod 2 ^ 32) div 32768 < 131072"
    by (simp add: less_mult_imp_div_less)
  ultimately show ?thesis by simp
qed

lemma unat_prod_quot:
  fixes w h :: "32 word"
  shows "unat ((w * h) div 32768) = (unat w * unat h) mod 2 ^ 32 div 32768"
  by (simp add: unat_div unat_word_ariths)

lemma ucast_sample_scale: "(ucast sample_scale :: 32 word) = 32768"
  by (simp add: sample_scale_def)

lemma span_top_core:
  fixes w h :: "32 word"
  assumes "unat w \<le> 32768"
  shows "clamp (unat ((h - (w * h) div 32768) div 2)) 0 (unat h)
       = (unat h - (unat w * unat h) mod 2 ^ 32 div 32768) div 2"
proof -
  let ?q = "(w * h) div 32768"
  have "unat ?q \<le> unat h"
    unfolding unat_prod_quot
    by (rule quot_le) (use assms unsigned_less [of h, where 'a = nat] in simp_all)
  then have "?q \<le> h" by (simp only: word_le_nat_alt)
  then have "unat (h - ?q) = unat h - unat ?q" by (rule unat_sub)
  then have "unat ((h - ?q) div 2) = (unat h - (unat w * unat h) mod 2 ^ 32 div 32768) div 2"
    by (simp add: unat_div unat_word_ariths)
  moreover have "(unat h - (unat w * unat h) mod 2 ^ 32 div 32768) div 2 \<le> unat h" by simp
  ultimately show ?thesis
    by (simp only: clamp_def) simp
qed

lemma span_bottom_core:
  fixes w h :: "32 word"
  shows "clamp (unat ((h + (w * h) div 32768) div 2)) 0 (unat h)
       = min (unat h) (((unat h + (unat w * unat h) mod 2 ^ 32 div 32768) mod 2 ^ 32) div 2)"
proof -
  have "unat ((h + (w * h) div 32768) div 2)
      = ((unat h + unat ((w * h) div 32768)) mod 2 ^ 32) div 2"
    by (simp add: unat_div unat_word_ariths)
  then show ?thesis
    by (simp only: clamp_def unat_prod_quot)
qed

lemma y1_px_nat:
  assumes "sint mn \<le> 0"
  shows "y1_px mn h = (unat h - (nat (- sint mn) * unat h) mod 2 ^ 32 div 32768) div 2"
proof -
  have "nat (- sint mn) \<le> 32768"
    using sample_range(1) [of mn] by simp
  then have "unat (word_of_int (- sint mn) :: 32 word) \<le> 32768"
    by (simp only: neg_sample_word [OF assms])
  from span_top_core [OF this] show ?thesis
    by (simp only: y1_px_def ucast_sample_scale neg_sample_word [OF assms])
qed

lemma y2_px_nat:
  assumes "0 \<le> sint mx"
  shows "y2_px mx h = min (unat h) (((unat h + (nat (sint mx) * unat h) mod 2 ^ 32 div 32768) mod 2 ^ 32) div 2)"
  by (simp only: y2_px_def ucast_sample_scale span_bottom_core pos_sample_word [OF assms])

lemma y1_px_le_half: "sint mn \<le> 0 \<Longrightarrow> y1_px mn h \<le> unat h div 2"
  by (simp add: y1_px_nat div_le_mono)

lemma y2_px_le: "y2_px mx h \<le> unat h"
  by (simp add: y2_px_def clamp_def)

lemma y2_px_ge_half:
  assumes "0 \<le> sint mx" "unat h \<le> 4294836224"
  shows "unat h div 2 \<le> y2_px mx h"
proof -
  let ?q = "(nat (sint mx) * unat h) mod 2 ^ 32 div 32768"
  have "?q < 131072" by (simp add: less_mult_imp_div_less)
  then have "unat h + ?q < 2 ^ 32" using assms(2) by simp
  then have "(unat h + ?q) mod 2 ^ 32 = unat h + ?q" by simp
  then have "y2_px mx h = min (unat h) ((unat h + ?q) div 2)"
    by (simp only: y2_px_nat [OF assms(1)])
  moreover have "unat h div 2 \<le> (unat h + ?q) div 2" by (rule div_le_mono) simp
  ultimately show ?thesis by simp
qed

lemma span_spec_nat:
  fixes a H :: nat
  assumes "a \<le> 32768" "H < 131072"
  shows "a * H mod 2 ^ 32 = a * H" and "a * H div 32768 \<le> H"
proof -
  have "H \<le> 131071" using assms(2) by simp
  with assms(1) have "a * H \<le> 32768 * 131071" by (rule mult_le_mono)
  then show "a * H mod 2 ^ 32 = a * H" by simp
  have "a * H \<le> 32768 * H" using assms(1) by (rule mult_le_mono1)
  then have "a * H div 32768 \<le> 32768 * H div 32768" by (rule div_le_mono)
  then show "a * H div 32768 \<le> H" by simp
qed

lemma y1_px_spec:
  assumes "sint mn \<le> 0" "unat h < 131072"
  shows "int (y1_px mn h) = spec_y1 (sint mn) (uint h) (uint sample_scale)"
proof -
  let ?a = "nat (- sint mn)" and ?H = "unat h"
  have a_le: "?a \<le> 32768" using sample_range(1) [of mn] by simp
  note nw = span_spec_nat [OF a_le assms(2)]
  have y: "y1_px mn h = (?H - ?a * ?H div 32768) div 2"
    by (simp only: y1_px_nat [OF assms(1)] nw(1))
  have a: "int ?a = - sint mn" using assms(1) by simp
  have q: "int (?a * ?H div 32768) = - sint mn * uint h div 32768"
    by (simp only: zdiv_int of_nat_mult a) simp
  have "int (y1_px mn h) = (int ?H - int (?a * ?H div 32768)) div 2"
    unfolding y using nw(2) by (simp add: zdiv_int)
  then have eq: "int (y1_px mn h) = (uint h - (- sint mn * uint h div 32768)) div 2"
    by (simp only: q) simp
  have "int (?a * ?H div 32768) \<le> int ?H" using nw(2) by (simp only: of_nat_le_iff)
  then have "0 \<le> int (?a * ?H div 32768)" "int (?a * ?H div 32768) \<le> uint h"
    by simp_all
  then have "0 \<le> - sint mn * uint h div 32768" "- sint mn * uint h div 32768 \<le> uint h"
    by (simp_all only: q)
  then have "0 \<le> (uint h - (- sint mn * uint h div 32768)) div 2"
    "(uint h - (- sint mn * uint h div 32768)) div 2 \<le> uint h"
    by simp_all
  then show ?thesis
    unfolding eq spec_y1_def spec_clamp_def sample_scale_value by simp
qed

lemma y2_px_spec:
  assumes "0 \<le> sint mx" "unat h < 131072"
  shows "int (y2_px mx h) = spec_y2 (sint mx) (uint h) (uint sample_scale)"
proof -
  let ?a = "nat (sint mx)" and ?H = "unat h"
  have a_le: "?a \<le> 32768" using sample_range(2) [of mx] by simp
  note nw = span_spec_nat [OF a_le assms(2)]
  have "?H + ?a * ?H div 32768 < 2 ^ 32" using nw(2) assms(2) by simp
  then have "(?H + ?a * ?H div 32768) mod 2 ^ 32 = ?H + ?a * ?H div 32768" by simp
  then have "y2_px mx h = min ?H ((?H + ?a * ?H div 32768) div 2)"
    by (simp only: y2_px_nat [OF assms(1)] nw(1))
  moreover have "(?H + ?a * ?H div 32768) div 2 \<le> ?H" using nw(2) by simp
  ultimately have y: "y2_px mx h = (?H + ?a * ?H div 32768) div 2" by simp
  have a: "int ?a = sint mx" using assms(1) by simp
  have q: "int (?a * ?H div 32768) = sint mx * uint h div 32768"
    by (simp only: zdiv_int of_nat_mult a) simp
  have "int (y2_px mx h) = (int ?H + int (?a * ?H div 32768)) div 2"
    unfolding y by (simp add: zdiv_int)
  then have eq: "int (y2_px mx h) = (uint h + sint mx * uint h div 32768) div 2"
    by (simp only: q) simp
  have "int (?a * ?H div 32768) \<le> int ?H" using nw(2) by (simp only: of_nat_le_iff)
  then have "0 \<le> int (?a * ?H div 32768)" "int (?a * ?H div 32768) \<le> uint h"
    by simp_all
  then have "0 \<le> sint mx * uint h div 32768" "sint mx * uint h div 32768 \<le> uint h"
    by (simp_all only: q)
  then have "0 \<le> (uint h + sint mx * uint h div 32768) div 2"
    "(uint h + sint mx * uint h div 32768) div 2 \<le> uint h"
    by simp_all
  then show ?thesis
    unfolding eq spec_y2_def spec_clamp_def sample_scale_value by simp
qed

lemma y1_px_silent: "y1_px 0 h = unat h div 2"
  using y1_px_nat [of 0 h] by simp

lemma y2_px_silent: "y2_px 0 h = unat h div 2"
proof -
  have "unat h < 2 ^ 32" using unsigned_less [of h, where 'a = nat] by simp
  then show ?thesis using y2_px_nat [of 0 h] by simp
qed

lemma y1_px_lowest:
  assumes "unat h < 131072"
  shows "y1_px 0x8000 h = 0"
proof -
  have s: "sint (0x8000 :: 16 word) = - 32768" by simp
  have "(32768 :: nat) \<le> 32768" by simp
  note nw = span_spec_nat [OF this assms]
  show ?thesis using y1_px_nat [of "0x8000" h] nw(1) by (simp add: s)
qed

lemma column_span_bounds:
  assumes "column_span h mn mx = Inr (y1, y2)"
  shows "y1 = y1_px mn h" and "y2 = y2_px mx h"
    and "y1 \<le> unat h div 2" and "unat h div 2 \<le> y2" and "y2 \<le> unat h"
  using assms by (simp_all add: column_span_def Let_def unat_div split: if_splits)

lemma column_span_no_wrap:
  assumes "sint mn \<le> 0" "0 \<le> sint mx" "unat h \<le> 4294836224"
  shows "column_span h mn mx = Inr (y1_px mn h, y2_px mx h)"
  using y1_px_le_half [OF assms(1), of h] y2_px_ge_half [OF assms(2,3)] y2_px_le [of mx h]
  by (simp add: column_span_def Let_def unat_div)

lemma column_span_silent: "column_span h 0 0 = Inr (unat h div 2, unat h div 2)"
  by (simp add: column_span_def Let_def unat_div y1_px_silent y2_px_silent)

section \<open>Images and the painting of a column\<close>

lemma shape_sized_image [simp]:
  "get_width (sized_image w h) = w" "get_height (sized_image w h) = h"
  by (simp_all add: sized_image_def)

lemma well_formed_sized_image:
  "w < 2 ^ 32 \<Longrightarrow> h < 2 ^ 32 \<Longrightarrow> well_formed (sized_image w h)"
  by (simp add: well_formed_def sized_image_def list_all_iff)

lemma cell_sized_image:
  "x < w \<Longrightarrow> y < h \<Longrightarrow> cell (sized_image w h) x y = (default_pixel, 0)"
  by (simp add: cell_def sized_image_def)

lemma shape_put_pixel [simp]:
  "get_width (put_pixel img x y c) = get_width img"
  "get_height (put_pixel img x y c) = get_height img"
  by (simp_all add: put_pixel_def)

lemma well_formed_rows:
  "well_formed img \<Longrightarrow> y < get_height img \<Longrightarrow> length (pixbuf img ! y) = get_width img"
  by (simp add: well_formed_def list_all_length)

lemma well_formed_put_pixel:
  assumes "well_formed img"
  shows "well_formed (put_pixel img x y c)"
proof -
  let ?rows = "(pixbuf img)[y := (pixbuf img ! y)[x := (c, Suc (assignments img x y))]]"
  have rows: "\<forall>n < length (pixbuf img). length (pixbuf img ! n) = get_width img"
    using assms by (simp add: well_formed_def list_all_length)
  have "length (?rows ! n) = get_width img" if "n < length (pixbuf img)" for n
  proof (cases "n = y")
    case True
    then show ?thesis using that rows by simp
  next
    case False
    then show ?thesis using that rows by simp
  qed
  then show ?thesis
    using assms by (simp add: well_formed_def put_pixel_def list_all_length)
qed

lemma cell_put_pixel:
  assumes "well_formed img" "x < get_width img" "y < get_height img"
    and "x' < get_width img" "y' < get_height img"
  shows "cell (put_pixel img x y c) x' y' =
         (if x' = x \<and> y' = y then (c, Suc (assignments img x y)) else cell img x' y')"
proof -
  have len: "length (pixbuf img) = get_height img" using assms(1) by (simp add: well_formed_def)
  have row: "length (pixbuf img ! y) = get_width img"
    using assms(1,3) by (rule well_formed_rows)
  show ?thesis
    using assms(2-) len row by (simp add: cell_def put_pixel_def nth_list_update)
qed

lemma shape_painted [simp]:
  "get_width (painted img x ys c) = get_width img"
  "get_height (painted img x ys c) = get_height img"
  by (induction ys arbitrary: img) (simp_all add: painted_def)

lemma fill_span_painted:
  "fill_span img x ys c =
     (if \<forall>y \<in> set ys. x < get_width img \<and> y < get_height img
      then Inr (painted img x ys c) else Inl Out_of_range)"
proof (induction ys arbitrary: img)
  case Nil
  show ?case by (simp add: painted_def)
next
  case (Cons y ys)
  show ?case
    by (simp add: set_pixel_def Cons.IH) (simp add: painted_def)
qed

lemma well_formed_painted:
  "well_formed img \<Longrightarrow> well_formed (painted img x ys c)"
  by (induction ys arbitrary: img) (simp_all add: painted_def well_formed_put_pixel)

lemma cell_painted:
  assumes "well_formed img" "x < get_width img" "\<forall>y \<in> set ys. y < get_height img"
    and "distinct ys" "x' < get_width img" "y' < get_height img"
  shows "cell (painted img x ys c) x' y' =
         (if x' = x \<and> y' \<in> set ys then (c, Suc (assignments img x y')) else cell img x' y')"
  using assms
proof (induction ys arbitrary: img)
  case Nil
  show ?case by (simp add: painted_def)
next
  case (Cons y ys)
  let ?img = "put_pixel img x y c"
  have p: "painted img x (y # ys) c = painted ?img x ys c" by (simp add: painted_def)
  have y: "y < get_height img" "y \<notin> set ys" using Cons.prems by simp_all
  have "cell (painted ?img x ys c) x' y' =
        (if x' = x \<and> y' \<in> set ys then (c, Suc (assignments ?img x y')) else cell ?img x' y')"
    using Cons.prems by (intro Cons.IH) (simp_all add: well_formed_put_pixel)
  moreover have "cell ?img x' y' =
        (if x' = x \<and> y' = y then (c, Suc (assignments img x y)) else cell img x' y')"
    using Cons.prems y by (intro cell_put_pixel) simp_all
  moreover have "y' \<in> set ys \<Longrightarrow> assignments ?img x y' = assignments img x y'"
    using Cons.prems y cell_put_pixel [of img x y x y' c] by (auto simp add: assignments_def)
  ultimately show ?case unfolding p by auto
qed

lemma paint_column_painted:
  "paint_column img x y1 y2 h bg fg =
     (if \<forall>y \<in> set ([0..<y1] @ [y1..<y2] @ [y2..<h]). x < get_width img \<and> y < get_height img
      then Inr (painted_column img x y1 y2 h bg fg) else Inl Out_of_range)"
  by (simp add: paint_column_def painted_column_def fill_span_painted ball_Un)

lemma shape_painted_column [simp]:
  "get_width (painted_column img x y1 y2 h bg fg) = get_width img"
  "get_height (painted_column img x y1 y2 h bg fg) = get_height img"
  by (simp_all add: painted_column_def)

lemma well_formed_painted_column:
  "well_formed img \<Longrightarrow> well_formed (painted_column img x y1 y2 h bg fg)"
  by (simp add: painted_column_def well_formed_painted)

lemma cell_painted_column:
  assumes "well_formed img" "x < get_width img" "y1 \<le> y2" "y2 \<le> get_height img"
    and "x' < get_width img" "y' < get_height img"
  shows "cell (painted_column img x y1 y2 (get_height img) bg fg) x' y' =
         (if x' = x then (if y1 \<le> y' \<and> y' < y2 then fg else bg, Suc (assignments img x y'))
          else cell img x' y')"
proof -
  let ?a = "painted img x [0..<y1] bg"
  let ?b = "painted ?a x [y1..<y2] fg"
  let ?c = "painted ?b x [y2..<get_height img] bg"
  have a: "cell ?a u v = (if u = x \<and> v < y1 then (bg, Suc (assignments img x v)) else cell img u v)"
    if "u < get_width img" "v < get_height img" for u v
    using assms(1-4) that by (subst cell_painted) auto
  have b: "cell ?b u v = (if u = x \<and> y1 \<le> v \<and> v < y2 then (fg, Suc (assignments ?a x v)) else cell ?a u v)"
    if "u < get_width img" "v < get_height img" for u v
    using assms(1-4) that by (subst cell_painted) (auto simp add: well_formed_painted)
  have c: "cell ?c u v = (if u = x \<and> y2 \<le> v then (bg, Suc (assignments ?b x v)) else cell ?b u v)"
    if "u < get_width img" "v < get_height img" for u v
    using assms(1-4) that by (subst cell_painted) (auto simp add: well_formed_painted)
  show ?thesis
    unfolding painted_column_def
    using assms(2,3,4,5,6) a [of x y'] b [of x y'] a [of x' y'] b [of x' y']
    by (simp add: c assignments_def)
qed

section \<open>The scan of the left channel\<close>

lemma find_min_max_scan:
  assumes "0 < ch" "k \<le> g"
  shows "find_min_max ch (g * ch) block (k * ch) mn mx =
         Some (fold min_max_step (map (\<lambda>j. block ! (j * ch)) [k..<g]) (mn, mx))"
  using assms(2)
proof (induction "g - k" arbitrary: k mn mx)
  case 0
  then have "k = g" by simp
  then show ?case by (subst find_min_max.simps) simp
next
  case (Suc d)
  then have lt: "k < g" and d: "d = g - Suc k" and le: "Suc k \<le> g" by simp_all
  have "k * ch < g * ch" using lt assms(1) by simp
  then have "find_min_max ch (g * ch) block (k * ch) mn mx =
        find_min_max ch (g * ch) block (Suc k * ch) (std_min mn (block ! (k * ch))) (std_max mx (block ! (k * ch)))"
    by (subst find_min_max.simps) (simp add: add.commute)
  also have "\<dots> = Some (fold min_max_step (map (\<lambda>j. block ! (j * ch)) [Suc k..<g])
        (std_min mn (block ! (k * ch)), std_max mx (block ! (k * ch))))"
    using d le by (rule Suc.hyps(1))
  also have "\<dots> = Some (fold min_max_step (map (\<lambda>j. block ! (j * ch)) [k..<g]) (mn, mx))"
    using lt by (simp add: upt_conv_Cons min_max_step_def)
  finally show ?case .
qed

lemma find_min_max_envelope:
  assumes "0 < ch \<or> g = 0"
  shows "find_min_max ch (g * ch) block 0 0 0 = Some (envelope (left_channel ch g block))"
proof (cases "0 < ch")
  case True
  then show ?thesis
    using find_min_max_scan [of ch 0 g block 0 0] by (simp add: envelope_def left_channel_def)
next
  case False
  then have "g = 0" using assms by simp
  then show ?thesis
    by (subst find_min_max.simps) (simp add: envelope_def left_channel_def)
qed

lemma frames_read_bound: "frames_read wav k * channels wav \<le> length (unread wav)"
proof -
  have "frames_read wav k * channels wav \<le> length (unread wav) div channels wav * channels wav"
    by (rule mult_le_mono1) (simp add: frames_read_def)
  also have "\<dots> \<le> length (unread wav)" by (rule div_times_less_eq_dividend)
  finally show ?thesis .
qed

lemma frames_read_le: "frames_read wav k \<le> k"
  by (simp add: frames_read_def)

lemma frames_read_no_channels: "channels wav = 0 \<Longrightarrow> frames_read wav k = 0"
  by (simp add: frames_read_def)

lemma left_channel_fresh:
  assumes "g * ch \<le> length xs" "0 < ch \<or> g = 0"
  shows "left_channel ch g (take (g * ch) xs @ drop (g * ch) block) = left_channel ch g xs"
proof -
  have "(take (g * ch) xs @ drop (g * ch) block) ! (j * ch) = xs ! (j * ch)" if "j < g" for j
  proof (cases "ch = 0")
    case True
    then show ?thesis using that assms(2) by simp
  next
    case False
    then have "j * ch < g * ch" using that by simp
    then show ?thesis using assms by (simp add: nth_append)
  qed
  then show ?thesis by (simp add: left_channel_def)
qed

lemma read_min_max_eq:
  "read_min_max wav block fpp =
     (if frames_read wav (nat fpp) * channels wav \<le> length block
      then Inr (column_min_max fpp wav,
                take (frames_read wav (nat fpp) * channels wav) (unread wav) @
                  drop (frames_read wav (nat fpp) * channels wav) block,
                advance (nat fpp) wav)
      else Inl (Assertion_failed 109))"
proof -
  let ?g = "frames_read wav (nat fpp)" and ?ch = "channels wav"
  have g: "0 < ?ch \<or> ?g = 0" by (cases "?ch = 0") (simp_all add: frames_read_no_channels)
  show ?thesis
    by (simp add: read_min_max_def readf_def Let_def find_min_max_envelope [OF g]
        left_channel_fresh [OF frames_read_bound g] column_min_max_def)
qed

lemma sint_std_min: "sint (std_min a b) = min (sint a) (sint b)"
  by (simp add: std_min_def word_sless_alt min_def)

lemma sint_std_max: "sint (std_max a b) = max (sint a) (sint b)"
  by (simp add: std_max_def word_sless_alt max_def)

lemma fold_min_max_Min_Max:
  "sint (fst (fold min_max_step xs m)) = Min (insert (sint (fst m)) (sint ` set xs)) \<and>
   sint (snd (fold min_max_step xs m)) = Max (insert (sint (snd m)) (sint ` set xs))"
proof (induction xs arbitrary: m)
  case Nil
  show ?case by simp
next
  case (Cons x xs)
  have "Min (insert (min (sint (fst m)) (sint x)) (sint ` set xs))
      = Min (insert (sint (fst m)) (insert (sint x) (sint ` set xs)))"
    by (cases "set xs = {}") (simp_all add: min.assoc)
  moreover have "Max (insert (max (sint (snd m)) (sint x)) (sint ` set xs))
      = Max (insert (sint (snd m)) (insert (sint x) (sint ` set xs)))"
    by (cases "set xs = {}") (simp_all add: max.assoc)
  moreover have "sint (fst (min_max_step x m)) = min (sint (fst m)) (sint x)"
    "sint (snd (min_max_step x m)) = max (sint (snd m)) (sint x)"
    by (simp_all add: min_max_step_def sint_std_min sint_std_max)
  moreover have "fold min_max_step (x # xs) m = fold min_max_step xs (min_max_step x m)"
    by simp
  moreover note Cons.IH [of "min_max_step x m"]
  ultimately show ?case by (simp only: list.set image_insert)
qed

lemma envelope_Min_Max:
  "sint (fst (envelope xs)) = Min (insert 0 (sint ` set xs))"
  "sint (snd (envelope xs)) = Max (insert 0 (sint ` set xs))"
  using fold_min_max_Min_Max [of xs "(0, 0)"] by (simp_all add: envelope_def)

lemma envelope_silent:
  assumes "\<forall>s \<in> set xs. s = 0"
  shows "envelope xs = (0, 0)"
proof -
  have "sint ` set xs \<subseteq> {0}" using assms by auto
  then have "insert 0 (sint ` set xs) = {0}" by auto
  then have "sint (fst (envelope xs)) = 0" "sint (snd (envelope xs)) = 0"
    by (simp_all only: envelope_Min_Max Min_singleton Max_singleton)
  then have "fst (envelope xs) = 0" "snd (envelope xs) = 0"
    by (simp_all add: signed_eq_0_iff)
  then show ?thesis by (simp add: prod_eq_iff)
qed

lemma min_max_step_signs:
  assumes "sint (fst m) \<le> 0" "0 \<le> sint (snd m)"
  shows "sint (fst (min_max_step s m)) \<le> 0" "0 \<le> sint (snd (min_max_step s m))"
  using assms by (auto simp add: min_max_step_def std_min_def std_max_def word_sless_alt)

lemma fold_min_max_signs:
  "sint (fst m) \<le> 0 \<Longrightarrow> 0 \<le> sint (snd m) \<Longrightarrow>
   sint (fst (fold min_max_step xs m)) \<le> 0 \<and> 0 \<le> sint (snd (fold min_max_step xs m))"
  by (induction xs arbitrary: m) (simp_all add: min_max_step_signs)

lemma envelope_signs: "sint (fst (envelope xs)) \<le> 0" "0 \<le> sint (snd (envelope xs))"
  using fold_min_max_signs [of "(0, 0)" xs] by (simp_all add: envelope_def)

lemma column_min_max_signs:
  "sint (fst (column_min_max fpp wav)) \<le> 0" "0 \<le> sint (snd (column_min_max fpp wav))"
  by (simp_all add: column_min_max_def envelope_signs)

lemma column_envelope_signs:
  "sint (fst (column_envelope wav out x)) \<le> 0" "0 \<le> sint (snd (column_envelope wav out x))"
  by (simp_all add: column_envelope_def column_min_max_signs)

section \<open>One column\<close>

lemma length_refilled:
  "frames_read wav k * channels wav \<le> length block \<Longrightarrow> length (refilled wav block k) = length block"
  using frames_read_bound [of wav k] by (simp add: refilled_def readf_def Let_def)

lemma render_column_eq:
  "render_column h bg fg fpp x (wav, block, img) =
     (if \<not> frames_read wav (nat fpp) * channels wav \<le> length block
      then Inl (Assertion_failed 109)
      else (case column_span h (fst (column_min_max fpp wav)) (snd (column_min_max fpp wav)) of
              Inl e \<Rightarrow> Inl e
            | Inr (y1, y2) \<Rightarrow>
                if \<forall>y \<in> set ([0..<y1] @ [y1..<y2] @ [y2..<unat h]).
                     x < get_width img \<and> y < get_height img
                then Inr (advance (nat fpp) wav, refilled wav block (nat fpp),
                          painted_column img x y1 y2 (unat h) bg fg)
                else Inl Out_of_range))"
  by (simp add: render_column_def read_min_max_eq paint_column_painted refilled_def readf_def
      Let_def split: sum.split prod.split)

lemma render_column_Inr:
  assumes run: "render_column h bg fg fpp x (wav, block, img) = Inr (wav1, block1, img1)"
    and wf: "well_formed img" and h: "unat h = get_height img" and x: "x < get_width img"
  shows "wav1 = advance (nat fpp) wav"
    and "length block1 = length block"
    and "well_formed img1"
    and "get_width img1 = get_width img"
    and "get_height img1 = get_height img"
    and "column_span h (fst (column_min_max fpp wav)) (snd (column_min_max fpp wav)) =
         Inr (y1_px (fst (column_min_max fpp wav)) h, y2_px (snd (column_min_max fpp wav)) h)"
    and "\<And>x' y'. x' < get_width img \<Longrightarrow> y' < get_height img \<Longrightarrow>
         cell img1 x' y' =
           (if x' = x then (column_pixel h bg fg (column_min_max fpp wav) y', Suc (assignments img x y'))
            else cell img x' y')"
proof -
  let ?m = "column_min_max fpp wav"
  from run have a: "frames_read wav (nat fpp) * channels wav \<le> length block"
    by (simp add: render_column_eq split: if_splits)
  from run a obtain y1 y2 where sp: "column_span h (fst ?m) (snd ?m) = Inr (y1, y2)"
    by (auto simp add: render_column_eq split: sum.splits)
  note b = column_span_bounds [OF sp]
  from run a sp have res: "wav1 = advance (nat fpp) wav" "block1 = refilled wav block (nat fpp)"
      "img1 = painted_column img x y1 y2 (unat h) bg fg"
    by (auto simp add: render_column_eq split: if_splits)
  show "wav1 = advance (nat fpp) wav" by fact
  show "length block1 = length block" unfolding res using a by (rule length_refilled)
  show "well_formed img1" unfolding res using wf by (rule well_formed_painted_column)
  show "get_width img1 = get_width img" "get_height img1 = get_height img"
    unfolding res by simp_all
  show "column_span h (fst ?m) (snd ?m) = Inr (y1_px (fst ?m) h, y2_px (snd ?m) h)"
    using sp b(1,2) by simp
  fix x' y' assume "x' < get_width img" "y' < get_height img"
  moreover have "y1 \<le> y2" "y2 \<le> get_height img" using b(3,4,5) h by simp_all
  ultimately show "cell img1 x' y' =
      (if x' = x then (column_pixel h bg fg ?m y', Suc (assignments img x y')) else cell img x' y')"
    unfolding res h using wf x b(1,2)
    by (simp add: cell_painted_column column_pixel_def)
qed

section \<open>The loop over the columns\<close>

lemma source_at_0 [simp]: "source_at fpp 0 wav = wav"
  by (simp add: source_at_def)

lemma source_at_Suc: "source_at fpp (Suc k) wav = source_at fpp k (advance (nat fpp) wav)"
  by (simp add: source_at_def funpow_swap1)

lemma source_at_step: "source_at fpp (Suc x) wav = advance (nat fpp) (source_at fpp x wav)"
  by (simp add: source_at_def)

lemma render_columns_Inr:
  assumes "render_columns h bg fg fpp [a..<a + n] (wav, block, img) = Inr (wav', block', img')"
    and "well_formed img" and "unat h = get_height img" and "a + n \<le> get_width img"
  shows "wav' = source_at fpp n wav \<and> length block' = length block \<and> well_formed img' \<and>
         get_width img' = get_width img \<and> get_height img' = get_height img \<and>
         (\<forall>x y. x < get_width img \<longrightarrow> y < get_height img \<longrightarrow>
            cell img' x y =
              (if a \<le> x \<and> x < a + n
               then (column_pixel h bg fg (column_min_max fpp (source_at fpp (x - a) wav)) y,
                     Suc (assignments img x y))
               else cell img x y)) \<and>
         (\<forall>k < n. let m = column_min_max fpp (source_at fpp k wav)
                  in column_span h (fst m) (snd m) = Inr (y1_px (fst m) h, y2_px (snd m) h))"
  using assms
proof (induction n arbitrary: a wav block img)
  case 0
  then show ?case by auto
next
  case (Suc n)
  have cols: "[a..<a + Suc n] = a # [Suc a..<Suc a + n]" by (simp add: upt_conv_Cons)
  from Suc.prems(1) obtain wav1 block1 img1
    where first: "render_column h bg fg fpp a (wav, block, img) = Inr (wav1, block1, img1)"
      and rest: "render_columns h bg fg fpp [Suc a..<Suc a + n] (wav1, block1, img1) = Inr (wav', block', img')"
    unfolding cols by (auto split: sum.splits)
  have a: "a < get_width img" using Suc.prems(4) by simp
  note one = render_column_Inr [OF first Suc.prems(2,3) a]
  have "unat h = get_height img1" "Suc a + n \<le> get_width img1"
    using one(4,5) Suc.prems(3,4) by simp_all
  note ih = Suc.IH [OF rest one(3) this]
  have w: "wav' = source_at fpp (Suc n) wav"
    using ih one(1) by (simp add: source_at_Suc)
  have cells: "cell img' x y =
        (if a \<le> x \<and> x < a + Suc n
         then (column_pixel h bg fg (column_min_max fpp (source_at fpp (x - a) wav)) y,
               Suc (assignments img x y))
         else cell img x y)"
    if xy: "x < get_width img" "y < get_height img" for x y
  proof -
    have c1: "cell img1 x y =
        (if x = a then (column_pixel h bg fg (column_min_max fpp wav) y, Suc (assignments img a y))
         else cell img x y)"
      using xy by (rule one(7))
    have c2: "cell img' x y =
        (if Suc a \<le> x \<and> x < Suc a + n
         then (column_pixel h bg fg (column_min_max fpp (source_at fpp (x - Suc a) wav1)) y,
               Suc (assignments img1 x y))
         else cell img1 x y)"
      using ih xy one(4,5) by simp
    show ?thesis
    proof (cases "Suc a \<le> x \<and> x < Suc a + n")
      case True
      then have "x - a = Suc (x - Suc a)" by arith
      then have "source_at fpp (x - a) wav = source_at fpp (x - Suc a) wav1"
        by (simp only: source_at_Suc one(1))
      moreover have "assignments img1 x y = assignments img x y"
        using True c1 by (simp add: assignments_def)
      ultimately show ?thesis using True c2 by simp
    next
      case False
      then show ?thesis using c1 c2 by auto
    qed
  qed
  have spans: "let m = column_min_max fpp (source_at fpp k wav)
               in column_span h (fst m) (snd m) = Inr (y1_px (fst m) h, y2_px (snd m) h)"
    if "k < Suc n" for k
  proof (cases k)
    case 0
    then show ?thesis using one(6) by (simp add: Let_def)
  next
    case (Suc j)
    then have "j < n" using that by simp
    then show ?thesis using ih Suc by (simp add: source_at_Suc one(1))
  qed
  show ?case
    using w ih one(2,4,5) cells spans by simp
qed

lemma channels_advance [simp]: "channels (advance k wav) = channels wav"
  by (simp add: advance_def channels_def)

lemma channels_source_at [simp]: "channels (source_at fpp k wav) = channels wav"
  by (induction k arbitrary: wav) (simp_all add: source_at_Suc)

lemma render_columns_total:
  assumes "well_formed img" and "unat h = get_height img" and "a + n \<le> get_width img"
    and "nat fpp * channels wav \<le> length block"
    and "\<forall>k < n. \<exists>s. column_span h (fst (column_min_max fpp (source_at fpp k wav)))
                          (snd (column_min_max fpp (source_at fpp k wav))) = Inr s"
  shows "\<exists>s'. render_columns h bg fg fpp [a..<a + n] (wav, block, img) = Inr s'"
  using assms
proof (induction n arbitrary: a wav block img)
  case 0
  then show ?case by simp
next
  case (Suc n)
  let ?m = "column_min_max fpp wav"
  have cols: "[a..<a + Suc n] = a # [Suc a..<Suc a + n]" by (simp add: upt_conv_Cons)
  have "frames_read wav (nat fpp) * channels wav \<le> nat fpp * channels wav"
    by (rule mult_le_mono1) (rule frames_read_le)
  also have "\<dots> \<le> length block" by (rule Suc.prems(4))
  finally have fits: "frames_read wav (nat fpp) * channels wav \<le> length block" .
  from Suc.prems(5) obtain s where "column_span h (fst ?m) (snd ?m) = Inr s"
    by (auto dest: spec [of _ 0])
  then obtain y1 y2 where sp: "column_span h (fst ?m) (snd ?m) = Inr (y1, y2)"
    by (cases s) simp
  note b = column_span_bounds [OF sp]
  have rows: "\<forall>y \<in> set ([0..<y1] @ [y1..<y2] @ [y2..<unat h]). a < get_width img \<and> y < get_height img"
    using b(3,4,5) Suc.prems(2,3) by auto
  let ?img = "painted_column img a y1 y2 (unat h) bg fg"
  let ?block = "refilled wav block (nat fpp)"
  have first: "render_column h bg fg fpp a (wav, block, img) = Inr (advance (nat fpp) wav, ?block, ?img)"
    using fits sp rows by (simp add: render_column_eq)
  have "\<exists>s'. render_columns h bg fg fpp [Suc a..<Suc a + n] (advance (nat fpp) wav, ?block, ?img) = Inr s'"
  proof (rule Suc.IH)
    show "well_formed ?img" using Suc.prems(1) by (rule well_formed_painted_column)
    show "unat h = get_height ?img" using Suc.prems(2) by simp
    show "Suc a + n \<le> get_width ?img" using Suc.prems(3) by simp
    show "nat fpp * channels (advance (nat fpp) wav) \<le> length ?block"
      using Suc.prems(4) fits by (simp add: length_refilled)
    show "\<forall>k < n. \<exists>s. column_span h
            (fst (column_min_max fpp (source_at fpp k (advance (nat fpp) wav))))
            (snd (column_min_max fpp (source_at fpp k (advance (nat fpp) wav)))) = Inr s"
      using Suc.prems(5) by (auto simp add: source_at_Suc [symmetric])
  qed
  then show ?case unfolding cols using first by simp
qed

lemma render_column_completes:
  assumes "well_formed img" and "unat h = get_height img" and "x < get_width img"
    and "nat fpp * channels wav \<le> length block" and "unat h \<le> 4294836224"
  shows "\<exists>s'. render_column h bg fg fpp x (wav, block, img) = Inr s'"
proof -
  have "\<forall>k < 1. \<exists>s. column_span h (fst (column_min_max fpp (source_at fpp k wav)))
                          (snd (column_min_max fpp (source_at fpp k wav))) = Inr s"
    using column_span_no_wrap [OF column_min_max_signs assms(5)] by blast
  moreover have "x + 1 \<le> get_width img" using assms(3) by simp
  ultimately have "\<exists>s'. render_columns h bg fg fpp [x..<x + 1] (wav, block, img) = Inr s'"
    using assms(1,2,4) by (intro render_columns_total)
  then show ?thesis by (auto split: sum.splits)
qed

section \<open>The upscaling\<close>

lemma upscale_row_Inr:
  assumes "well_formed out" "y < get_height out" "y < get_height small"
    and "\<forall>x \<in> set xs. x < get_width out \<and> x * get_width small div get_width out < get_width small
          \<and> x * get_width small div get_width out < get_width out"
    and "distinct xs"
  shows "\<exists>out'. upscale_row small y xs out = Inr out' \<and> well_formed out' \<and>
           get_width out' = get_width out \<and> get_height out' = get_height out \<and>
           (\<forall>x' y'. x' < get_width out \<longrightarrow> y' < get_height out \<longrightarrow>
              cell out' x' y' =
                (if y' = y \<and> x' \<in> set xs
                 then (get_pixel small (x' * get_width small div get_width out) y,
                       Suc (assignments out x' y'))
                 else cell out x' y'))"
  using assms
proof (induction xs arbitrary: out)
  case Nil
  then show ?case by simp
next
  case (Cons x xs)
  let ?c = "get_pixel small (x * get_width small div get_width out) y"
  let ?o = "put_pixel out x y ?c"
  have x: "x < get_width out" "x \<notin> set xs" using Cons.prems by simp_all
  have step: "copy_pixel small y x out = Inr ?o"
    using Cons.prems by (simp add: copy_pixel_def set_pixel_def Let_def)
  have "\<exists>out'. upscale_row small y xs ?o = Inr out' \<and> well_formed out' \<and>
           get_width out' = get_width ?o \<and> get_height out' = get_height ?o \<and>
           (\<forall>x' y'. x' < get_width ?o \<longrightarrow> y' < get_height ?o \<longrightarrow>
              cell out' x' y' =
                (if y' = y \<and> x' \<in> set xs
                 then (get_pixel small (x' * get_width small div get_width ?o) y,
                       Suc (assignments ?o x' y'))
                 else cell ?o x' y'))"
    using Cons.prems by (intro Cons.IH) (simp_all add: well_formed_put_pixel)
  then obtain out' where o: "upscale_row small y xs ?o = Inr out'" "well_formed out'"
      "get_width out' = get_width out" "get_height out' = get_height out"
    and cells: "\<And>x' y'. x' < get_width out \<Longrightarrow> y' < get_height out \<Longrightarrow>
              cell out' x' y' =
                (if y' = y \<and> x' \<in> set xs
                 then (get_pixel small (x' * get_width small div get_width out) y,
                       Suc (assignments ?o x' y'))
                 else cell ?o x' y')"
    by auto
  have put: "cell ?o x' y' = (if x' = x \<and> y' = y then (?c, Suc (assignments out x y)) else cell out x' y')"
    if "x' < get_width out" "y' < get_height out" for x' y'
    using Cons.prems(1) x(1) Cons.prems(2) that by (rule cell_put_pixel)
  have "cell out' x' y' =
          (if y' = y \<and> x' \<in> set (x # xs)
           then (get_pixel small (x' * get_width small div get_width out) y,
                 Suc (assignments out x' y'))
           else cell out x' y')"
    if xy: "x' < get_width out" "y' < get_height out" for x' y'
    using cells [OF xy] put [OF xy] x(2) by (auto simp add: assignments_def)
  then show ?case using step o by simp
qed

lemma upscale_rows_Inr:
  assumes "well_formed out"
    and "\<forall>y \<in> set ys. y < get_height out \<and> y < get_height small"
    and "distinct ys"
    and "\<forall>x < get_width out. x * get_width small div get_width out < get_width small
          \<and> x * get_width small div get_width out < get_width out"
  shows "\<exists>out'. upscale_rows small ys out = Inr out' \<and> well_formed out' \<and>
           get_width out' = get_width out \<and> get_height out' = get_height out \<and>
           (\<forall>x' y'. x' < get_width out \<longrightarrow> y' < get_height out \<longrightarrow>
              cell out' x' y' =
                (if y' \<in> set ys
                 then (get_pixel small (x' * get_width small div get_width out) y',
                       Suc (assignments out x' y'))
                 else cell out x' y'))"
  using assms
proof (induction ys arbitrary: out)
  case Nil
  then show ?case by simp
next
  case (Cons y ys)
  have y: "y < get_height out" "y < get_height small" "y \<notin> set ys" using Cons.prems by simp_all
  have "\<forall>x \<in> set [0..<get_width out]. x < get_width out
        \<and> x * get_width small div get_width out < get_width small
        \<and> x * get_width small div get_width out < get_width out"
    using Cons.prems(4) by simp
  from upscale_row_Inr [OF Cons.prems(1) y(1,2) this]
  obtain o1 where o1: "upscale_row small y [0..<get_width out] out = Inr o1" "well_formed o1"
      "get_width o1 = get_width out" "get_height o1 = get_height out"
    and c1: "\<And>x' y'. x' < get_width out \<Longrightarrow> y' < get_height out \<Longrightarrow>
              cell o1 x' y' =
                (if y' = y
                 then (get_pixel small (x' * get_width small div get_width out) y,
                       Suc (assignments out x' y'))
                 else cell out x' y')"
    by auto
  have "\<exists>out'. upscale_rows small ys o1 = Inr out' \<and> well_formed out' \<and>
           get_width out' = get_width o1 \<and> get_height out' = get_height o1 \<and>
           (\<forall>x' y'. x' < get_width o1 \<longrightarrow> y' < get_height o1 \<longrightarrow>
              cell out' x' y' =
                (if y' \<in> set ys
                 then (get_pixel small (x' * get_width small div get_width o1) y',
                       Suc (assignments o1 x' y'))
                 else cell o1 x' y'))"
    using Cons.prems o1 by (intro Cons.IH) simp_all
  then obtain out' where o: "upscale_rows small ys o1 = Inr out'" "well_formed out'"
      "get_width out' = get_width out" "get_height out' = get_height out"
    and c2: "\<And>x' y'. x' < get_width out \<Longrightarrow> y' < get_height out \<Longrightarrow>
              cell out' x' y' =
                (if y' \<in> set ys
                 then (get_pixel small (x' * get_width small div get_width out) y',
                       Suc (assignments o1 x' y'))
                 else cell o1 x' y')"
    using o1(3,4) by auto
  have "cell out' x' y' =
          (if y' \<in> set (y # ys)
           then (get_pixel small (x' * get_width small div get_width out) y',
                 Suc (assignments out x' y'))
           else cell out x' y')"
    if xy: "x' < get_width out" "y' < get_height out" for x' y'
    using c2 [OF xy] c1 [OF xy] y(3) by (auto simp add: assignments_def)
  then show ?case using o1(1) o by simp
qed

lemma upscale_Inr:
  assumes "well_formed out" "get_height small = get_height out"
    and "0 < get_width out \<Longrightarrow> 0 < get_width small \<and> get_width small \<le> get_width out"
  shows "\<exists>out'. upscale small out = Inr out' \<and> well_formed out' \<and>
           get_width out' = get_width out \<and> get_height out' = get_height out \<and>
           (\<forall>x y. x < get_width out \<longrightarrow> y < get_height out \<longrightarrow>
              cell out' x y =
                (get_pixel small (x * get_width small div get_width out) y,
                 Suc (assignments out x y)))"
proof -
  have idx: "x * get_width small div get_width out < get_width small
        \<and> x * get_width small div get_width out < get_width out"
    if "x < get_width out" for x
  proof -
    have s: "0 < get_width small" "get_width small \<le> get_width out"
      using assms(3) that by simp_all
    have "x * get_width small < get_width out * get_width small"
      using that s(1) by simp
    then have "x * get_width small div get_width out < get_width small"
      by (simp add: less_mult_imp_div_less mult.commute)
    then show ?thesis using s(2) by simp
  qed
  have "\<exists>out'. upscale_rows small [0..<get_height out] out = Inr out' \<and> well_formed out' \<and>
           get_width out' = get_width out \<and> get_height out' = get_height out \<and>
           (\<forall>x' y'. x' < get_width out \<longrightarrow> y' < get_height out \<longrightarrow>
              cell out' x' y' =
                (if y' \<in> set [0..<get_height out]
                 then (get_pixel small (x' * get_width small div get_width out) y',
                       Suc (assignments out x' y'))
                 else cell out x' y'))"
    using assms(1,2) idx by (intro upscale_rows_Inr) simp_all
  then show ?thesis unfolding upscale_def by auto
qed

section \<open>Width, frames per pixel and the reads\<close>

lemma to_int_upper: "0 \<le> k \<Longrightarrow> to_int k \<le> k"
  unfolding to_int_def
  by (simp add: sint_sbintrunc' signed_take_bit_int_less_eq_self_iff)

lemma to_int_exact: "- 2147483648 \<le> k \<Longrightarrow> k < 2147483648 \<Longrightarrow> to_int k = k"
  unfolding to_int_def
  by (simp add: sint_sbintrunc' signed_take_bit_int_eq_self)

lemma render_width_eq:
  "render_width wav out =
     (if frames wav < int (get_width out) then nat (max (frames wav) 1) else get_width out)"
proof -
  have "(if frames wav > 0 then frames wav else 1) = max (frames wav) 1" by auto
  then show ?thesis
    by (simp only: render_width_def render_target_def small_image_def not_enough_samples_def)
      simp
qed

lemma frames_per_pixel_pos: "1 \<le> frames_per_pixel wav img"
  by (simp add: frames_per_pixel_def)

lemma frames_per_pixel_exact:
  assumes "0 \<le> frames wav" and "frames wav div int (get_width img) < 2147483648"
  shows "frames_per_pixel wav img = max 1 (frames wav div int (get_width img))"
proof -
  have "0 \<le> frames wav div int (get_width img)"
    using assms(1) by (simp add: pos_imp_zdiv_nonneg_iff div_int_pos_iff)
  then have "to_int (frames wav div int (get_width img)) = frames wav div int (get_width img)"
    using assms(2) by (intro to_int_exact) simp_all
  then show ?thesis by (simp add: frames_per_pixel_def)
qed

lemma frames_per_pixel_upper:
  assumes "0 \<le> frames wav"
  shows "frames_per_pixel wav img \<le> max 1 (frames wav div int (get_width img))"
proof -
  have "0 \<le> frames wav div int (get_width img)"
    using assms(1) by (simp add: pos_imp_zdiv_nonneg_iff div_int_pos_iff)
  then have "to_int (frames wav div int (get_width img)) \<le> frames wav div int (get_width img)"
    by (rule to_int_upper)
  then show ?thesis by (simp add: frames_per_pixel_def)
qed

lemma full_reads:
  assumes "0 < channels wav" and "length (unread wav) = F * channels wav"
    and "Suc x * nat fpp \<le> F"
  shows "unread (source_at fpp x wav) = drop (x * nat fpp * channels wav) (unread wav)"
    and "frames_read (source_at fpp x wav) (nat fpp) = nat fpp"
proof -
  let ?k = "nat fpp" and ?ch = "channels wav"
  have u: "unread (source_at fpp x wav) = drop (x * ?k * ?ch) (unread wav)
      \<and> frames_read (source_at fpp x wav) ?k = ?k"
    using assms(3)
  proof (induction x)
    case 0
    then have "?k \<le> length (unread wav) div ?ch" using assms(1,2) by simp
    then show ?case by (simp add: frames_read_def)
  next
    case (Suc x)
    then have ih: "unread (source_at fpp x wav) = drop (x * ?k * ?ch) (unread wav)"
      "frames_read (source_at fpp x wav) ?k = ?k"
      by simp_all
    have a: "unread (source_at fpp (Suc x) wav) = drop (Suc x * ?k * ?ch) (unread wav)"
      by (simp add: source_at_step advance_def ih add_mult_distrib add.commute)
    have "length (drop (Suc x * ?k * ?ch) (unread wav)) = (F - Suc x * ?k) * ?ch"
      by (simp add: assms(2) diff_mult_distrib)
    moreover have "?k \<le> F - Suc x * ?k" using Suc.prems by simp
    ultimately have "?k \<le> length (unread (source_at fpp (Suc x) wav)) div ?ch"
      using assms(1) by (simp add: a)
    then show ?case using a by (simp add: frames_read_def)
  qed
  then show "unread (source_at fpp x wav) = drop (x * ?k * ?ch) (unread wav)"
    and "frames_read (source_at fpp x wav) ?k = ?k"
    by simp_all
qed

lemma columns_fit:
  assumes "0 < frames wav" and "0 < get_width out"
  shows "int (render_width wav out) * frames_per_pixel wav (render_target wav out) \<le> frames wav"
proof -
  let ?W = "render_width wav out"
  have W: "0 < ?W" "int ?W \<le> frames wav"
    using assms by (simp_all add: render_width_eq)
  have "frames_per_pixel wav (render_target wav out) \<le> max 1 (frames wav div int ?W)"
    unfolding render_width_def using assms(1) by (intro frames_per_pixel_upper) simp
  also have "\<dots> = frames wav div int ?W"
  proof -
    have "0 < frames wav div int ?W" using W by (simp add: pos_imp_zdiv_pos_iff)
    then show ?thesis by simp
  qed
  finally have "int ?W * frames_per_pixel wav (render_target wav out)
      \<le> int ?W * (frames wav div int ?W)"
    by (rule mult_left_mono) simp
  also have "\<dots> \<le> frames wav"
    using W(1) pos_mod_sign [of "int ?W" "frames wav"] mult_div_mod_eq [of "int ?W" "frames wav"]
    by linarith
  finally show ?thesis .
qed

section \<open>The painting stage\<close>

lemma unat_render_height:
  "well_formed out \<Longrightarrow> unat (render_height out) = get_height out"
  by (simp add: render_height_def well_formed_def unat_of_nat)

lemma render_target_props:
  assumes "well_formed out"
  shows "well_formed (render_target wav out)"
    and "get_height (render_target wav out) = get_height out"
    and "0 < get_width out \<Longrightarrow> 0 < render_width wav out"
    and "0 < get_width out \<Longrightarrow> render_width wav out \<le> get_width out"
    and "\<not> not_enough_samples wav out \<Longrightarrow> render_target wav out = out"
    and "not_enough_samples wav out \<Longrightarrow>
         render_target wav out = sized_image (nat (max (frames wav) 1)) (get_height out)"
proof -
  have w: "get_width out < 2 ^ 32" "get_height out < 2 ^ 32"
    using assms by (simp_all add: well_formed_def)
  show "well_formed (render_target wav out)"
    using assms w
    by (auto simp add: render_target_def small_image_def not_enough_samples_def
        intro!: well_formed_sized_image)
  show "get_height (render_target wav out) = get_height out"
    by (simp add: render_target_def small_image_def)
  show "0 < get_width out \<Longrightarrow> 0 < render_width wav out"
    by (simp add: render_width_def render_target_def small_image_def)
  show "0 < get_width out \<Longrightarrow> render_width wav out \<le> get_width out"
    by (auto simp add: render_width_def render_target_def small_image_def not_enough_samples_def)
  show "\<not> not_enough_samples wav out \<Longrightarrow> render_target wav out = out"
    by (simp add: render_target_def)
  show "not_enough_samples wav out \<Longrightarrow>
         render_target wav out = sized_image (nat (max (frames wav) 1)) (get_height out)"
  proof -
    have "(if frames wav > 0 then frames wav else 1) = max (frames wav) 1" by auto
    then show "not_enough_samples wav out \<Longrightarrow>
         render_target wav out = sized_image (nat (max (frames wav) 1)) (get_height out)"
      by (simp only: render_target_def small_image_def if_True)
  qed
qed

lemma render_eq:
  "render wav out bg fg =
     (if 0 < render_width wav out
      then if samples_per_pixel wav (render_target wav out) < 0 then Inl Length_error
           else render_columns (render_height out) bg fg
                  (frames_per_pixel wav (render_target wav out))
                  [0..<0 + render_width wav out]
                  (wav, replicate (nat (samples_per_pixel wav (render_target wav out))) 0,
                   render_target wav out)
      else Inl (Assertion_failed 90))"
  by (simp add: render_def Let_def render_width_def render_height_def)

lemma samples_per_pixel_exact:
  assumes "product_in_range wav out"
  shows "samples_per_pixel wav (render_target wav out)
         = int (channels wav) * frames_per_pixel wav (render_target wav out)"
proof -
  let ?p = "sint (sf_channels wav) * frames_per_pixel wav (render_target wav out)"
  have c: "0 \<le> sint (sf_channels wav)" and p: "?p < 2147483648"
    using assms by (simp_all add: product_in_range_def)
  have "0 \<le> ?p" using c frames_per_pixel_pos [of wav "render_target wav out"] by simp
  then have "to_int ?p = ?p" using p by (intro to_int_exact) simp_all
  then show ?thesis using c by (simp add: samples_per_pixel_def channels_def)
qed

lemma block_fits:
  assumes "product_in_range wav out"
  shows "\<not> samples_per_pixel wav (render_target wav out) < 0"
    and "nat (frames_per_pixel wav (render_target wav out)) * channels wav
     \<le> length (replicate (nat (samples_per_pixel wav (render_target wav out))) (0 :: sample_type))"
proof -
  let ?fpp = "frames_per_pixel wav (render_target wav out)"
  have pos: "0 \<le> ?fpp" using frames_per_pixel_pos [of wav "render_target wav out"] by simp
  then have "0 \<le> int (channels wav) * ?fpp" by simp
  then show "\<not> samples_per_pixel wav (render_target wav out) < 0"
    by (simp add: samples_per_pixel_exact [OF assms])
  have "nat (int (channels wav) * ?fpp) = nat ?fpp * channels wav"
    using pos by (simp add: nat_mult_distrib mult.commute)
  then show "nat ?fpp * channels wav
     \<le> length (replicate (nat (samples_per_pixel wav (render_target wav out))) (0 :: sample_type))"
    by (simp add: samples_per_pixel_exact [OF assms])
qed

text \<open>
  Where the product of line 95 leaves the range of \<^verbatim>\<open>int\<close>: with two channels and
  \<open>2^30\<close> frames per pixel it is negative and the buffer cannot be constructed; with four
  channels it is 0, the buffer is empty and the assertion of line 109 fails at the first
  read that returns a frame.
\<close>

lemma negative_product_fails:
  assumes "frames wav = 1073741824" and "sf_channels wav = 2" and "get_width out = 1"
  shows "samples_per_pixel wav out = - 2147483648"
    and "render wav out bg fg = Inl Length_error"
proof -
  have t: "render_target wav out = out"
    using assms(1,3) by (simp add: render_target_def not_enough_samples_def)
  have f: "frames_per_pixel wav out = 1073741824"
    using assms(1,3) by (simp add: frames_per_pixel_def to_int_def)
  show s: "samples_per_pixel wav out = - 2147483648"
    using assms(2) by (simp add: samples_per_pixel_def f to_int_def)
  show "render wav out bg fg = Inl Length_error"
    using assms(3) by (simp add: render_eq t s render_width_def)
qed

lemma wrapped_product_fails:
  assumes "frames wav = 1073741824" and "sf_channels wav = 4" and "get_width out = 1"
    and "4 \<le> length (unread wav)"
  shows "samples_per_pixel wav out = 0"
    and "render wav out bg fg = Inl (Assertion_failed 109)"
proof -
  have t: "render_target wav out = out"
    using assms(1,3) by (simp add: render_target_def not_enough_samples_def)
  have f: "frames_per_pixel wav out = 1073741824"
    using assms(1,3) by (simp add: frames_per_pixel_def to_int_def)
  show s: "samples_per_pixel wav out = 0"
    using assms(2) by (simp add: samples_per_pixel_def f to_int_def)
  have c: "channels wav = 4" using assms(2) by (simp add: channels_def)
  have "1 \<le> length (unread wav) div 4" using assms(4) by simp
  then have "0 < frames_read wav 1073741824" by (simp add: frames_read_def c)
  then have "read_min_max wav [] 1073741824 = Inl (Assertion_failed 109)"
    by (simp add: read_min_max_def readf_def c)
  then show "render wav out bg fg = Inl (Assertion_failed 109)"
    using assms(3) by (simp add: render_eq t s f render_width_def render_column_def)
qed

lemma product_in_range_short:
  assumes "0 \<le> sint (sf_channels wav)" and "0 \<le> frames wav"
    and "sint (sf_channels wav) * max 1 (frames wav) < 2147483648"
  shows "product_in_range wav out"
proof -
  let ?tgt = "render_target wav out"
  have "frames wav div int (get_width ?tgt) = int (nat (frames wav) div get_width ?tgt)"
    using assms(2) by (simp add: zdiv_int)
  also have "\<dots> \<le> int (nat (frames wav))" by (simp only: of_nat_le_iff div_le_dividend)
  finally have "frames wav div int (get_width ?tgt) \<le> frames wav" using assms(2) by simp
  then have "frames_per_pixel wav ?tgt \<le> max 1 (frames wav)"
    using frames_per_pixel_upper [OF assms(2), of ?tgt] by simp
  then have "sint (sf_channels wav) * frames_per_pixel wav ?tgt
      \<le> sint (sf_channels wav) * max 1 (frames wav)"
    using assms(1) by (rule mult_left_mono)
  then show ?thesis using assms(1,3) by (simp add: product_in_range_def)
qed

lemma render_Inr:
  assumes "render wav out bg fg = Inr (wav', block', img')" and "well_formed out"
  shows "0 < render_width wav out"
    and "well_formed img'"
    and "get_width img' = render_width wav out"
    and "get_height img' = get_height out"
    and "\<And>x y. x < render_width wav out \<Longrightarrow> y < get_height out \<Longrightarrow>
           cell img' x y =
             (rendered_pixel wav out bg fg x y, Suc (assignments (render_target wav out) x y))"
    and "\<And>x. x < render_width wav out \<Longrightarrow>
           column_span (render_height out) (fst (column_envelope wav out x))
             (snd (column_envelope wav out x)) =
           Inr (y1_px (fst (column_envelope wav out x)) (render_height out),
                y2_px (snd (column_envelope wav out x)) (render_height out))"
    and "wav' = source_at (frames_per_pixel wav (render_target wav out)) (render_width wav out) wav"
proof -
  let ?tgt = "render_target wav out"
  let ?fpp = "frames_per_pixel wav ?tgt"
  show pos: "0 < render_width wav out"
    using assms(1) by (simp add: render_eq split: if_splits)
  with assms(1)
  have run: "render_columns (render_height out) bg fg ?fpp [0..<0 + render_width wav out]
      (wav, replicate (nat (samples_per_pixel wav ?tgt)) 0, ?tgt) = Inr (wav', block', img')"
    by (simp add: render_eq split: if_splits)
  note t = render_target_props [OF assms(2), of wav]
  have h: "unat (render_height out) = get_height ?tgt"
    using unat_render_height [OF assms(2)] t(2) by simp
  have w: "0 + render_width wav out \<le> get_width ?tgt" by (simp add: render_width_def)
  note r = render_columns_Inr [OF run t(1) h w]
  show "well_formed img'" using r by simp
  show "get_width img' = render_width wav out" using r by (simp add: render_width_def)
  show "get_height img' = get_height out" using r t(2) by simp
  show "cell img' x y =
          (rendered_pixel wav out bg fg x y, Suc (assignments ?tgt x y))"
    if "x < render_width wav out" "y < get_height out" for x y
    using r that t(2) by (simp add: render_width_def rendered_pixel_def column_envelope_def)
  show "column_span (render_height out) (fst (column_envelope wav out x))
             (snd (column_envelope wav out x)) =
           Inr (y1_px (fst (column_envelope wav out x)) (render_height out),
                y2_px (snd (column_envelope wav out x)) (render_height out))"
    if "x < render_width wav out" for x
    using r that by (simp add: column_envelope_def Let_def)
  show "wav' = source_at ?fpp (render_width wav out) wav" using r by simp
qed

lemma render_total:
  assumes "well_formed out" and "0 < get_width out" and "product_in_range wav out"
    and "\<forall>x < render_width wav out. \<exists>s.
           column_span (render_height out) (fst (column_envelope wav out x))
             (snd (column_envelope wav out x)) = Inr s"
  shows "\<exists>wav' block' img'. render wav out bg fg = Inr (wav', block', img')"
proof -
  let ?tgt = "render_target wav out"
  note t = render_target_props [OF assms(1), of wav]
  have h: "unat (render_height out) = get_height ?tgt"
    using unat_render_height [OF assms(1)] t(2) by simp
  have w: "0 + render_width wav out \<le> get_width ?tgt" by (simp add: render_width_def)
  have "\<exists>s'. render_columns (render_height out) bg fg (frames_per_pixel wav ?tgt)
      [0..<0 + render_width wav out]
      (wav, replicate (nat (samples_per_pixel wav ?tgt)) 0, ?tgt) = Inr s'"
  proof (rule render_columns_total [OF t(1) h w block_fits(2) [OF assms(3)]])
    show "\<forall>k < render_width wav out. \<exists>s.
        column_span (render_height out)
          (fst (column_min_max (frames_per_pixel wav ?tgt) (source_at (frames_per_pixel wav ?tgt) k wav)))
          (snd (column_min_max (frames_per_pixel wav ?tgt) (source_at (frames_per_pixel wav ?tgt) k wav)))
        = Inr s"
      using assms(4) by (simp add: column_envelope_def)
  qed
  then show ?thesis
    using t(3) [OF assms(2)] block_fits(1) [OF assms(3)] by (auto simp add: render_eq)
qed

lemma render_completes:
  assumes "well_formed out" and "0 < get_width out" and "get_height out \<le> 4294836224"
    and "product_in_range wav out"
  shows "\<exists>wav' block' img'. render wav out bg fg = Inr (wav', block', img')"
proof (rule render_total [OF assms(1,2,4)])
  have "unat (render_height out) \<le> 4294836224"
    using assms(3) unat_render_height [OF assms(1)] by simp
  then show "\<forall>x < render_width wav out. \<exists>s.
           column_span (render_height out) (fst (column_envelope wav out x))
             (snd (column_envelope wav out x)) = Inr s"
    using column_span_no_wrap [OF column_envelope_signs] by blast
qed

lemma columns_read_in_sequence:
  assumes "consistent wav" and "0 < frames wav" and "0 < get_width out"
    and "x < render_width wav out"
  shows "frames_read (source_at (frames_per_pixel wav (render_target wav out)) x wav)
           (nat (frames_per_pixel wav (render_target wav out)))
         = nat (frames_per_pixel wav (render_target wav out))"
    and "unread (source_at (frames_per_pixel wav (render_target wav out)) x wav)
         = drop (x * nat (frames_per_pixel wav (render_target wav out)) * channels wav) (unread wav)"
proof -
  let ?fpp = "frames_per_pixel wav (render_target wav out)"
  have ch: "0 < channels wav" using assms(1) by (simp add: consistent_def)
  have "int (length (unread wav)) = int (nat (frames wav) * channels wav)"
    using assms(1,2) by (simp add: consistent_def)
  then have len: "length (unread wav) = nat (frames wav) * channels wav"
    by (simp only: of_nat_eq_iff)
  have pos: "0 \<le> ?fpp" using frames_per_pixel_pos [of wav "render_target wav out"] by simp
  then have "int (Suc x * nat ?fpp) = int (Suc x) * ?fpp" by (simp add: algebra_simps)
  also have "\<dots> \<le> int (render_width wav out) * ?fpp"
    using assms(4) pos by (intro mult_right_mono) simp_all
  also have "\<dots> \<le> frames wav" using assms(2,3) by (rule columns_fit)
  finally have "int (Suc x * nat ?fpp) \<le> frames wav" .
  moreover have "0 \<le> frames wav" using assms(2) by simp
  ultimately have fit: "Suc x * nat ?fpp \<le> nat (frames wav)" by (simp only: le_nat_iff)
  show "frames_read (source_at ?fpp x wav) (nat ?fpp) = nat ?fpp"
    using ch len fit by (rule full_reads(2))
  show "unread (source_at ?fpp x wav) = drop (x * nat ?fpp * channels wav) (unread wav)"
    using ch len fit by (rule full_reads(1))
qed

lemma consistent_no_frames:
  assumes "consistent wav" and "frames wav = 0"
  shows "unread (source_at fpp x wav) = []" and "frames_read (source_at fpp x wav) k = 0"
    and "column_min_max fpp (source_at fpp x wav) = (0, 0)"
proof -
  have "unread wav = []" using assms by (simp add: consistent_def)
  then show u: "unread (source_at fpp x wav) = []"
    by (induction x arbitrary: wav) (simp_all add: source_at_Suc advance_def)
  then have f: "frames_read (source_at fpp x wav) j = 0" for j by (simp add: frames_read_def)
  then show "frames_read (source_at fpp x wav) k = 0" .
  show "column_min_max fpp (source_at fpp x wav) = (0, 0)"
    by (simp add: column_min_max_def f left_channel_def envelope_def)
qed

section \<open>The whole renderer\<close>

lemma compute_waveform_Inr:
  assumes "compute_waveform wav out bg fg = Inr res" and "well_formed out"
  shows "well_formed res"
    and "get_width res = get_width out"
    and "get_height res = get_height out"
    and "\<And>x y. x < get_width out \<Longrightarrow> y < get_height out \<Longrightarrow>
           cell res x y =
             (rendered_pixel wav out bg fg (x * render_width wav out div get_width out) y,
              Suc (assignments out x y))"
proof -
  from assms(1) obtain wav' block' img'
    where run: "render wav out bg fg = Inr (wav', block', img')"
    by (auto simp add: compute_waveform_def split: sum.splits)
  note r = render_Inr [OF run assms(2)]
  note t = render_target_props [OF assms(2), of wav]
  have goal: "well_formed res \<and> get_width res = get_width out \<and> get_height res = get_height out \<and>
      (\<forall>x y. x < get_width out \<longrightarrow> y < get_height out \<longrightarrow>
           cell res x y =
             (rendered_pixel wav out bg fg (x * render_width wav out div get_width out) y,
              Suc (assignments out x y)))"
  proof (cases "not_enough_samples wav out")
    case False
    then have res: "res = img'" using assms(1) run by (simp add: compute_waveform_def)
    have tgt: "render_target wav out = out" using False by (rule t(5))
    then have w: "render_width wav out = get_width out" by (simp add: render_width_def)
    show ?thesis
      unfolding res using r(2,3,4) r(5) by (simp add: w tgt)
  next
    case True
    then have up: "upscale img' out = Inr res"
      using assms(1) run by (simp add: compute_waveform_def)
    have "0 < get_width out \<Longrightarrow> 0 < get_width img' \<and> get_width img' \<le> get_width out"
      using r(1,3) t(4) by simp
    from upscale_Inr [OF assms(2) r(4) this] up
    have o: "well_formed res" "get_width res = get_width out" "get_height res = get_height out"
      and c: "\<And>x y. x < get_width out \<Longrightarrow> y < get_height out \<Longrightarrow>
           cell res x y = (get_pixel img' (x * get_width img' div get_width out) y,
                 Suc (assignments out x y))"
      by auto
    have "cell res x y =
             (rendered_pixel wav out bg fg (x * render_width wav out div get_width out) y,
              Suc (assignments out x y))"
      if xy: "x < get_width out" "y < get_height out" for x y
    proof -
      have "x * render_width wav out < get_width out * render_width wav out"
        using xy(1) r(1) by simp
      then have "x * render_width wav out div get_width out < render_width wav out"
        by (simp add: less_mult_imp_div_less mult.commute)
      then have "get_pixel img' (x * render_width wav out div get_width out) y =
          rendered_pixel wav out bg fg (x * render_width wav out div get_width out) y"
        using r(5) xy(2) by (simp add: get_pixel_def)
      then show ?thesis using c [OF xy] r(3) by simp
    qed
    then show ?thesis using o by simp
  qed
  show "well_formed res" "get_width res = get_width out" "get_height res = get_height out"
    using goal by simp_all
  show "cell res x y =
             (rendered_pixel wav out bg fg (x * render_width wav out div get_width out) y,
              Suc (assignments out x y))"
    if "x < get_width out" "y < get_height out" for x y
    using goal that by simp
qed

lemma compute_waveform_total:
  assumes "well_formed out" and "0 < get_width out" and "product_in_range wav out"
    and "\<forall>x < render_width wav out. \<exists>s.
           column_span (render_height out) (fst (column_envelope wav out x))
             (snd (column_envelope wav out x)) = Inr s"
  shows "\<exists>res. compute_waveform wav out bg fg = Inr res"
proof -
  from render_total [OF assms] obtain wav' block' img'
    where run: "render wav out bg fg = Inr (wav', block', img')" by blast
  note r = render_Inr [OF run assms(1)]
  note t = render_target_props [OF assms(1), of wav]
  have "0 < get_width out \<Longrightarrow> 0 < get_width img' \<and> get_width img' \<le> get_width out"
    using r(1,3) t(4) by simp
  from upscale_Inr [OF assms(1) r(4) this]
  obtain res where "upscale img' out = Inr res" by blast
  then show ?thesis using run by (simp add: compute_waveform_def)
qed

lemma compute_waveform_completes:
  assumes "well_formed out" and "0 < get_width out" and "get_height out \<le> 4294836224"
    and "product_in_range wav out"
  shows "\<exists>res. compute_waveform wav out bg fg = Inr res"
proof (rule compute_waveform_total [OF assms(1,2,4)])
  have "unat (render_height out) \<le> 4294836224"
    using assms(3) unat_render_height [OF assms(1)] by simp
  then show "\<forall>x < render_width wav out. \<exists>s.
           column_span (render_height out) (fst (column_envelope wav out x))
             (snd (column_envelope wav out x)) = Inr s"
    using column_span_no_wrap [OF column_envelope_signs] by blast
qed

lemma rendered_pixel_cases:
  "rendered_pixel wav out bg fg x y = fg \<or> rendered_pixel wav out bg fg x y = bg"
  by (simp add: rendered_pixel_def column_pixel_def)

lemma zero_width_fails:
  "compute_waveform wav (sized_image 0 h) bg fg = Inl (Assertion_failed 90)" if "0 \<le> frames wav"
  using that
  by (simp add: compute_waveform_def render_eq render_width_eq)

section \<open>The image given to the renderer matters only through its width and height\<close>

lemma fill_span_rel:
  "same_shape a b \<Longrightarrow> rel_sum (=) same_shape (fill_span a x ys c) (fill_span b x ys c)"
  by (simp add: fill_span_painted same_shape_def)

lemma paint_column_rel:
  "same_shape a b \<Longrightarrow>
   rel_sum (=) same_shape (paint_column a x y1 y2 h bg fg) (paint_column b x y1 y2 h bg fg)"
  by (simp add: paint_column_painted same_shape_def)

lemma render_column_rel:
  "same_shape a b \<Longrightarrow>
   rel_sum (=) same_state (render_column h bg fg fpp x (wav, block, a))
     (render_column h bg fg fpp x (wav, block, b))"
  by (simp add: render_column_eq same_shape_def same_state_def split: sum.split prod.split)

lemma render_columns_rel:
  "same_state s t \<Longrightarrow>
   rel_sum (=) same_state (render_columns h bg fg fpp xs s) (render_columns h bg fg fpp xs t)"
proof (induction xs arbitrary: s t)
  case Nil
  then show ?case by simp
next
  case (Cons x xs)
  obtain wav block a where s: "s = (wav, block, a)" by (cases s)
  obtain b where t: "t = (wav, block, b)" and ab: "same_shape a b"
    using Cons.prems s by (cases t) (simp add: same_state_def)
  from render_column_rel [OF ab, of h bg fg fpp x wav block]
  show ?case
    unfolding s t
    by (cases "render_column h bg fg fpp x (wav, block, a)";
        cases "render_column h bg fg fpp x (wav, block, b)") (simp_all add: Cons.IH)
qed

lemma copy_pixel_rel:
  "same_shape a b \<Longrightarrow> rel_sum (=) same_shape (copy_pixel small y x a) (copy_pixel small y x b)"
  by (simp add: copy_pixel_def set_pixel_def Let_def same_shape_def)

lemma upscale_row_rel:
  "same_shape a b \<Longrightarrow>
   rel_sum (=) same_shape (upscale_row small y xs a) (upscale_row small y xs b)"
proof (induction xs arbitrary: a b)
  case Nil
  then show ?case by simp
next
  case (Cons x xs)
  from copy_pixel_rel [OF Cons.prems, of small y x]
  show ?case
    by (cases "copy_pixel small y x a"; cases "copy_pixel small y x b") (simp_all add: Cons.IH)
qed

lemma upscale_rows_rel:
  "same_shape a b \<Longrightarrow>
   rel_sum (=) same_shape (upscale_rows small ys a) (upscale_rows small ys b)"
proof (induction ys arbitrary: a b)
  case Nil
  then show ?case by simp
next
  case (Cons y ys)
  have w: "get_width a = get_width b" using Cons.prems by (simp add: same_shape_def)
  from upscale_row_rel [OF Cons.prems, of small y "[0..<get_width a]"]
  show ?case
    by (cases "upscale_row small y [0..<get_width a] a";
        cases "upscale_row small y [0..<get_width a] b") (simp_all add: Cons.IH w [symmetric])
qed

lemma upscale_rel:
  "same_shape a b \<Longrightarrow> rel_sum (=) same_shape (upscale small a) (upscale small b)"
  using upscale_rows_rel [of a b small "[0..<get_height a]"]
  by (simp add: upscale_def same_shape_def)

lemma shape_cong:
  assumes "same_shape a b"
  shows "not_enough_samples wav a = not_enough_samples wav b"
    and "render_height a = render_height b"
    and "render_width wav a = render_width wav b"
    and "frames_per_pixel wav (render_target wav a) = frames_per_pixel wav (render_target wav b)"
    and "samples_per_pixel wav (render_target wav a) = samples_per_pixel wav (render_target wav b)"
    and "column_envelope wav a = column_envelope wav b"
    and "rendered_pixel wav a bg fg = rendered_pixel wav b bg fg"
    and "same_shape (render_target wav a) (render_target wav b)"
    and "not_enough_samples wav a \<Longrightarrow> render_target wav a = render_target wav b"
proof -
  have s: "get_width a = get_width b" "get_height a = get_height b"
    using assms by (simp_all add: same_shape_def)
  show ne: "not_enough_samples wav a = not_enough_samples wav b"
    by (simp add: not_enough_samples_def s)
  show h: "render_height a = render_height b" by (simp add: render_height_def s)
  show w: "render_width wav a = render_width wav b"
    by (simp add: render_width_def render_target_def small_image_def ne s)
  then show f: "frames_per_pixel wav (render_target wav a) = frames_per_pixel wav (render_target wav b)"
    by (simp add: frames_per_pixel_def render_width_def)
  then show "samples_per_pixel wav (render_target wav a) = samples_per_pixel wav (render_target wav b)"
    by (simp add: samples_per_pixel_def)
  show e: "column_envelope wav a = column_envelope wav b"
    by (rule ext) (simp add: column_envelope_def f)
  show "rendered_pixel wav a bg fg = rendered_pixel wav b bg fg"
    by (intro ext) (simp add: rendered_pixel_def e h)
  show "same_shape (render_target wav a) (render_target wav b)"
    using w by (simp add: same_shape_def render_width_def render_target_def small_image_def ne s)
  show "not_enough_samples wav a \<Longrightarrow> render_target wav a = render_target wav b"
    using ne by (simp add: render_target_def small_image_def s)
qed

lemma render_rel:
  assumes "same_shape a b"
  shows "rel_sum (=) same_state (render wav a bg fg) (render wav b bg fg)"
proof -
  note c = shape_cong [OF assms]
  have "same_state (wav, replicate (nat (samples_per_pixel wav (render_target wav a))) 0, render_target wav a)
      (wav, replicate (nat (samples_per_pixel wav (render_target wav b))) 0, render_target wav b)"
    using c(5,8) by (simp add: same_state_def)
  from render_columns_rel [OF this]
  show ?thesis
    by (simp add: render_eq c(2,3,4,5) [symmetric])
qed

lemma compute_waveform_rel:
  assumes "same_shape a b"
  shows "rel_sum (=) same_shape (compute_waveform wav a bg fg) (compute_waveform wav b bg fg)"
proof (cases "not_enough_samples wav a")
  case True
  then have nb: "not_enough_samples wav b" using shape_cong(1) [OF assms] by simp
  have "render wav a bg fg = render wav b bg fg"
    using shape_cong(9) [OF assms True] shape_cong(2,3) [OF assms]
    by (simp add: render_eq)
  then show ?thesis
    using True nb upscale_rel [OF assms]
    by (cases "render wav b bg fg") (auto simp add: compute_waveform_def)
next
  case False
  then have nb: "\<not> not_enough_samples wav b" using shape_cong(1) [OF assms] by simp
  from render_rel [OF assms, of wav bg fg]
  show ?thesis
    using False nb
    by (cases "render wav a bg fg"; cases "render wav b bg fg")
       (auto simp add: compute_waveform_def same_state_def)
qed

lemma pixels_eqI:
  assumes "well_formed a" "well_formed b" "same_shape a b"
    and "\<And>x y. x < get_width a \<Longrightarrow> y < get_height a \<Longrightarrow> get_pixel a x y = get_pixel b x y"
  shows "pixels a = pixels b"
proof -
  have s: "get_width a = get_width b" "get_height a = get_height b"
    using assms(3) by (simp_all add: same_shape_def)
  have la: "length (pixbuf a) = get_height a" "length (pixbuf b) = get_height b"
    using assms(1,2) by (simp_all add: well_formed_def)
  show ?thesis
    unfolding pixels_def
  proof (rule nth_equalityI)
    show "length (map (map fst) (pixbuf a)) = length (map (map fst) (pixbuf b))"
      using la s by simp
    fix y assume "y < length (map (map fst) (pixbuf a))"
    then have y: "y < get_height a" using la by simp
    have ra: "length (pixbuf a ! y) = get_width a" using assms(1) y by (rule well_formed_rows)
    have rb: "length (pixbuf b ! y) = get_width b" using assms(2) y s by (simp add: well_formed_rows)
    have "map fst (pixbuf a ! y) = map fst (pixbuf b ! y)"
    proof (rule nth_equalityI)
      show "length (map fst (pixbuf a ! y)) = length (map fst (pixbuf b ! y))"
        using ra rb s by simp
      fix x assume "x < length (map fst (pixbuf a ! y))"
      then have x: "x < get_width a" using ra by simp
      from assms(4) [OF x y] show "map fst (pixbuf a ! y) ! x = map fst (pixbuf b ! y) ! x"
        using x ra rb s by (simp add: get_pixel_def cell_def)
    qed
    then show "map (map fst) (pixbuf a) ! y = map (map fst) (pixbuf b) ! y"
      using y la s by simp
  qed
qed

section \<open>The error stream of the program\<close>


section \<open>The renderer on the example inputs\<close>

lemma scenario_of_the_specification:
  "frames wav = 8000 \<Longrightarrow>
   \<not> not_enough_samples wav (sized_image 100 50) \<and>
   render_width wav (sized_image 100 50) = 100 \<and>
   frames_per_pixel wav (render_target wav (sized_image 100 50)) = 80"
  by (simp add: not_enough_samples_def render_width_eq frames_per_pixel_def render_target_def
      to_int_def)

lemma example_fpp: "frames_per_pixel example_wav (render_target example_wav (sized_image 3 4)) = 1"
  by (simp add: frames_per_pixel_def render_target_def not_enough_samples_def example_wav_def to_int_def)

lemma source_at_2: "source_at fpp 2 wav = advance (nat fpp) (advance (nat fpp) wav)"
  by (simp add: source_at_def numeral_2_eq_2)

lemma example_channels: "channels example_wav = 2"
  by (simp add: channels_def example_wav_def)

lemma unread_advance:
  "unread (advance k wav) = drop (frames_read wav k * channels wav) (unread wav)"
  by (simp add: advance_def)

lemma example_source: "unread (source_at 1 2 example_wav) = [0x7FFF, 7]"
proof -
  have a: "unread (advance (Suc 0) example_wav) = [0xF000, 7, 0x7FFF, 7]"
    by (simp add: unread_advance frames_read_def example_channels) (simp add: example_wav_def)
  have b: "unread (advance (Suc 0) (advance (Suc 0) example_wav)) = [0x7FFF, 7]"
    by (simp add: unread_advance [of "Suc 0" "advance (Suc 0) example_wav"] frames_read_def a
        example_channels)
  show ?thesis by (simp add: source_at_2 b)
qed

lemma example_envelope: "column_envelope example_wav (sized_image 3 4) 2 = (0, 0x7FFF)"
proof -
  have "left_channel 2 (frames_read (source_at 1 2 example_wav) (nat 1))
      (unread (source_at 1 2 example_wav)) = [0x7FFF]"
    by (simp add: left_channel_def frames_read_def example_source example_channels)
  then show ?thesis
    by (simp add: column_envelope_def example_fpp column_min_max_def example_channels
        envelope_def min_max_step_def std_min_def std_max_def word_sless_alt)
qed

lemma example_in_range: "product_in_range example_wav out"
  by (rule product_in_range_short) (simp_all add: example_wav_def)

lemma example_rendering:
  assumes "compute_waveform example_wav (sized_image 3 4) white black = Inr res" and "y < 4"
  shows "get_pixel res 2 y = (if y = 2 then black else white)"
proof -
  have wf: "well_formed (sized_image 3 4)" by (simp add: well_formed_sized_image)
  have w: "render_width example_wav (sized_image 3 4) = 3"
    by (simp add: render_width_eq example_wav_def)
  have px: "rendered_pixel example_wav (sized_image 3 4) white black 2 y =
      (if 2 \<le> y \<and> y < 3 then black else white)"
    by (simp add: rendered_pixel_def column_pixel_def example_envelope render_height_def
        y1_px_def y2_px_def clamp_def sample_scale_def)
  show ?thesis
    using compute_waveform_Inr(4) [OF assms(1) wf, of 2 y] assms(2)
    by (auto simp add: get_pixel_def w px)
qed





section \<open>The claims\<close>

text \<open>
  C1. The claim: for every column the boundaries are exactly
  \<open>y1 = clamp((h - (-min * h / full_scale)) / 2, 0, h)\<close> and
  \<open>y2 = clamp((h + max * h / full_scale) / 2, 0, h)\<close> with truncating integer division and
  full scale \<open>2^15\<close>. The program computes the two expressions in 32-bit unsigned
  arithmetic, and the products \<open>-min * h\<close> and \<open>max * h\<close> wrap around from height
  \<open>2^17 = 131072\<close> on. At that height a column whose lowest sample is \<open>-32768\<close> gets
  \<open>y1 = 65536\<close>, the midline, where the formula gives \<open>0\<close>; at height \<open>131077\<close> a
  column whose highest sample is \<open>32767\<close> gets \<open>y2 = 65538\<close> where the formula gives
  \<open>131074\<close>. Below height \<open>131072\<close> the program and the formulas agree
  (\<open>y1_px_spec\<close>, \<open>y2_px_spec\<close>).
\<close>

theorem span_products_wrap_at_tall_image:
  "y1_px 0x8000 131072 = 65536 \<and>
   spec_y1 (sint (0x8000 :: sample_type)) (uint (131072 :: 32 word)) (uint sample_scale) = 0 \<and>
   y2_px 0x7FFF 131077 = 65538 \<and>
   spec_y2 (sint (0x7FFF :: sample_type)) (uint (131077 :: 32 word)) (uint sample_scale) = 131074"
  by (simp add: y1_px_def y2_px_def clamp_def spec_y1_def spec_y2_def spec_clamp_def
      sample_scale_def)

text \<open>
  C2. The claim: the rendering width is \<open>max(frame_count, 1)\<close> when there are fewer
  frames than columns and the buffer's width otherwise, \<open>frames_per_pixel\<close> is
  \<open>max(1, frame_count / W)\<close>, and every column reads that many frames in sequence. The
  width is as claimed (\<open>render_width_eq\<close>), and with at least one frame every column
  receives exactly \<open>frames_per_pixel\<close> frames, one column after the other
  (\<open>columns_read_in_sequence\<close>). But \<^verbatim>\<open>std::max<int>\<close> takes the quotient as a 32-bit
  \<^verbatim>\<open>int\<close>: it is \<open>max(1, frame_count / W)\<close> only while the quotient is below \<open>2^31\<close>
  (\<open>frames_per_pixel_exact\<close>). With \<open>2^31\<close> frames and a buffer one column wide the
  quotient \<open>2147483648\<close> becomes \<open>-2147483648\<close> and \<open>frames_per_pixel\<close> is 1.
\<close>

theorem frames_per_pixel_wraps_at_long_audio:
  "\<not> not_enough_samples (wav\<lparr>frames := 2147483648\<rparr>) (sized_image 1 h) \<and>
   render_target (wav\<lparr>frames := 2147483648\<rparr>) (sized_image 1 h) = sized_image 1 h \<and>
   frames_per_pixel (wav\<lparr>frames := 2147483648\<rparr>) (sized_image 1 h) = 1 \<and>
   max 1 (frames (wav\<lparr>frames := 2147483648\<rparr>) div int (get_width (sized_image 1 h)))
     = 2147483648"
  by (simp add: not_enough_samples_def render_target_def frames_per_pixel_def to_int_def)

text \<open>
  C3. When the renderer completes, the result has the width and height of the buffer it
  was given; every pixel of it has been assigned exactly once during the run and holds
  the foreground or the background colour; and in every painted column \<open>x\<close> of the
  image the columns were painted into, with \<open>y1 \<le> y2 \<le> h\<close> the boundaries computed
  for that column, every row has been assigned once and holds the foreground colour in
  \<open>[y1, y2)\<close> and the background colour in \<open>[0, y1)\<close> and \<open>[y2, h)\<close>.
\<close>

theorem every_pixel_painted_once:
  assumes "well_formed out_image"
    and "compute_waveform wav out_image bg_color fg_color = Inr res"
  shows "get_width res = get_width out_image \<and> get_height res = get_height out_image \<and>
    (\<forall>x < get_width out_image. \<forall>y < get_height out_image.
       assignments res x y = Suc (assignments out_image x y) \<and>
       (get_pixel res x y = fg_color \<or> get_pixel res x y = bg_color)) \<and>
    (\<exists>wav' block' img.
       render wav out_image bg_color fg_color = Inr (wav', block', img) \<and>
       (\<forall>x < render_width wav out_image.
          y1_px (fst (column_envelope wav out_image x)) (render_height out_image)
            \<le> y2_px (snd (column_envelope wav out_image x)) (render_height out_image) \<and>
          y2_px (snd (column_envelope wav out_image x)) (render_height out_image)
            \<le> get_height out_image \<and>
          (\<forall>y < get_height out_image.
             assignments img x y = Suc (assignments (render_target wav out_image) x y) \<and>
             get_pixel img x y =
               (if y1_px (fst (column_envelope wav out_image x)) (render_height out_image) \<le> y \<and>
                   y < y2_px (snd (column_envelope wav out_image x)) (render_height out_image)
                then fg_color else bg_color))))"
proof -
  note c = compute_waveform_Inr [OF assms(2,1)]
  from assms(2) obtain wav' block' img
    where run: "render wav out_image bg_color fg_color = Inr (wav', block', img)"
    by (auto simp add: compute_waveform_def split: sum.splits)
  note r = render_Inr [OF run assms(1)]
  have h: "unat (render_height out_image) = get_height out_image"
    using assms(1) by (rule unat_render_height)
  have final: "assignments res x y = Suc (assignments out_image x y) \<and>
       (get_pixel res x y = fg_color \<or> get_pixel res x y = bg_color)"
    if "x < get_width out_image" "y < get_height out_image" for x y
    using c(4) [OF that] rendered_pixel_cases [of wav out_image bg_color fg_color]
    by (auto simp add: assignments_def get_pixel_def)
  have column: "y1_px (fst (column_envelope wav out_image x)) (render_height out_image)
            \<le> y2_px (snd (column_envelope wav out_image x)) (render_height out_image) \<and>
          y2_px (snd (column_envelope wav out_image x)) (render_height out_image)
            \<le> get_height out_image \<and>
          (\<forall>y < get_height out_image.
             assignments img x y = Suc (assignments (render_target wav out_image) x y) \<and>
             get_pixel img x y =
               (if y1_px (fst (column_envelope wav out_image x)) (render_height out_image) \<le> y \<and>
                   y < y2_px (snd (column_envelope wav out_image x)) (render_height out_image)
                then fg_color else bg_color))"
    if x: "x < render_width wav out_image" for x
  proof -
    note b = column_span_bounds [OF r(6) [OF x]]
    have "y1_px (fst (column_envelope wav out_image x)) (render_height out_image)
            \<le> y2_px (snd (column_envelope wav out_image x)) (render_height out_image)"
      using b(3,4) by simp
    moreover have "y2_px (snd (column_envelope wav out_image x)) (render_height out_image)
            \<le> get_height out_image"
      using b(5) h by simp
    moreover have "assignments img x y = Suc (assignments (render_target wav out_image) x y) \<and>
             get_pixel img x y =
               (if y1_px (fst (column_envelope wav out_image x)) (render_height out_image) \<le> y \<and>
                   y < y2_px (snd (column_envelope wav out_image x)) (render_height out_image)
                then fg_color else bg_color)"
      if "y < get_height out_image" for y
      using r(5) [OF x that]
      by (simp add: assignments_def get_pixel_def rendered_pixel_def column_pixel_def)
    ultimately show ?thesis by simp
  qed
  show ?thesis
    using c(2,3) final run column by blast
qed

theorem every_pixel_painted_once_witness:
  "well_formed (sized_image 3 4) \<and>
   (\<exists>res. compute_waveform example_wav (sized_image 3 4) white black = Inr res \<and>
      get_width res = 3 \<and> get_height res = 4 \<and>
      assignments res 2 1 = 1 \<and> get_pixel res 2 1 = white \<and>
      assignments res 2 2 = 1 \<and> get_pixel res 2 2 = black)"
proof -
  have wf: "well_formed (sized_image 3 4)" by (simp add: well_formed_sized_image)
  then obtain res
    where run: "compute_waveform example_wav (sized_image 3 4) white black = Inr res"
    using compute_waveform_completes [of "sized_image 3 4" example_wav white black]
      example_in_range
    by auto
  from every_pixel_painted_once [OF wf run]
  have "get_width res = 3" "get_height res = 4"
    and "assignments res 2 1 = Suc (assignments (sized_image 3 4) 2 1)"
    and "assignments res 2 2 = Suc (assignments (sized_image 3 4) 2 2)"
    by simp_all
  moreover have "get_pixel res 2 1 = white" "get_pixel res 2 2 = black"
    using example_rendering [OF run] by simp_all
  ultimately show ?thesis
    using wf run by (simp add: assignments_def cell_sized_image)
qed

text \<open>
  C4. When there are fewer frames than columns, the painted image \<open>small\<close> is
  \<open>W = max(frame_count, 1)\<close> wide and as high as the buffer, the renderer completes, and
  every pixel \<open>(x, y)\<close> of the result is the pixel \<open>(x * W div width, y)\<close> of \<open>small\<close>,
  where \<open>x * W div width < W\<close>.
\<close>

theorem upscaled_by_column_replication:
  assumes "well_formed out_image" and "not_enough_samples wav out_image"
    and "render wav out_image bg_color fg_color = Inr (wav', block', small)"
  shows "get_width small = nat (max (frames wav) 1) \<and>
    get_height small = get_height out_image \<and>
    (\<exists>res. compute_waveform wav out_image bg_color fg_color = Inr res \<and>
       (\<forall>x < get_width out_image.
          x * get_width small div get_width out_image < get_width small \<and>
          (\<forall>y < get_height out_image.
             get_pixel res x y = get_pixel small (x * get_width small div get_width out_image) y)))"
proof -
  note r = render_Inr [OF assms(3,1)]
  note t = render_target_props [OF assms(1), of wav]
  have w: "get_width small = nat (max (frames wav) 1)"
    using r(3) t(6) [OF assms(2)] by (simp add: render_width_def)
  have "0 < get_width out_image \<Longrightarrow> 0 < get_width small \<and> get_width small \<le> get_width out_image"
    using r(1,3) t(4) by simp
  from upscale_Inr [OF assms(1) r(4) this]
  obtain res where up: "upscale small out_image = Inr res"
    and cells: "\<And>x y. x < get_width out_image \<Longrightarrow> y < get_height out_image \<Longrightarrow>
       cell res x y = (get_pixel small (x * get_width small div get_width out_image) y,
                        Suc (assignments out_image x y))"
    by blast
  have run: "compute_waveform wav out_image bg_color fg_color = Inr res"
    using assms(2,3) up by (simp add: compute_waveform_def)
  have idx: "x * get_width small div get_width out_image < get_width small"
    if "x < get_width out_image" for x
  proof -
    have "x * get_width small < get_width out_image * get_width small"
      using that r(1,3) by simp
    then show ?thesis by (simp add: less_mult_imp_div_less mult.commute)
  qed
  show ?thesis
    using w r(4) run idx cells by (auto simp add: get_pixel_def)
qed

theorem upscaled_by_column_replication_witness:
  "well_formed (sized_image 5 4) \<and> not_enough_samples example_wav (sized_image 5 4) \<and>
   (\<exists>wav' block' small res.
      render example_wav (sized_image 5 4) white black = Inr (wav', block', small) \<and>
      compute_waveform example_wav (sized_image 5 4) white black = Inr res \<and>
      get_width small = 3 \<and> get_height small = 4 \<and>
      4 * get_width small div 5 < get_width small \<and>
      get_pixel res 4 1 = get_pixel small (4 * get_width small div 5) 1)"
proof -
  have wf: "well_formed (sized_image 5 4)" by (simp add: well_formed_sized_image)
  have ne: "not_enough_samples example_wav (sized_image 5 4)"
    by (simp add: not_enough_samples_def example_wav_def)
  obtain wav' block' small
    where run: "render example_wav (sized_image 5 4) white black = Inr (wav', block', small)"
    using render_completes [OF wf, of example_wav white black] example_in_range by auto
  from upscaled_by_column_replication [OF wf ne run]
  obtain res where "compute_waveform example_wav (sized_image 5 4) white black = Inr res"
    and "get_width small = 3" "get_height small = 4"
    and "4 * get_width small div 5 < get_width small"
    and "get_pixel res 4 1 = get_pixel small (4 * get_width small div 5) 1"
    by (auto simp add: example_wav_def)
  then show ?thesis using wf ne run by blast
qed

text \<open>
  C5. In a column that is painted, the minimum and maximum are those of the samples at
  the offsets \<open>0, channels, 2 * channels, ...\<close> among the frames that the read
  returned, together with the seed 0. When the read returns no frame, or all these
  samples are 0, then minimum and maximum are 0, \<open>y1 = y2 = h div 2\<close>, and every row of
  the column holds the background colour.
\<close>

theorem silent_column_is_flat:
  assumes "well_formed img" and "unat h = get_height img" and "x < get_width img"
    and "render_column h bg_color fg_color fpp x (wav, block, img) = Inr (wav', block', img')"
  shows "\<exists>mn mx.
    read_min_max wav block fpp = Inr ((mn, mx), block', wav') \<and>
    sint mn = Min (insert 0
      (sint ` set (left_channel (channels wav) (frames_read wav (nat fpp)) (unread wav)))) \<and>
    sint mx = Max (insert 0
      (sint ` set (left_channel (channels wav) (frames_read wav (nat fpp)) (unread wav)))) \<and>
    (frames_read wav (nat fpp) = 0 \<or>
     (\<forall>s \<in> set (left_channel (channels wav) (frames_read wav (nat fpp)) (unread wav)). s = 0)
     \<longrightarrow> mn = 0 \<and> mx = 0 \<and> y1_px mn h = unat h div 2 \<and> y2_px mx h = unat h div 2 \<and>
         (\<forall>y < get_height img. get_pixel img' x y = bg_color))"
proof -
  let ?xs = "left_channel (channels wav) (frames_read wav (nat fpp)) (unread wav)"
  let ?m = "column_min_max fpp wav"
  from assms(4) have fits: "frames_read wav (nat fpp) * channels wav \<le> length block"
    by (simp add: render_column_eq split: if_splits)
  then obtain y1 y2 where sp: "column_span h (fst ?m) (snd ?m) = Inr (y1, y2)"
    using assms(4) by (auto simp add: render_column_eq split: sum.splits)
  from assms(4) fits sp have res: "wav' = advance (nat fpp) wav" "block' = refilled wav block (nat fpp)"
    by (auto simp add: render_column_eq split: if_splits)
  have rd: "read_min_max wav block fpp = Inr ((fst ?m, snd ?m), block', wav')"
    using fits by (simp add: read_min_max_eq res refilled_def readf_def Let_def)
  have mm: "sint (fst ?m) = Min (insert 0 (sint ` set ?xs))"
    "sint (snd ?m) = Max (insert 0 (sint ` set ?xs))"
    by (simp_all add: column_min_max_def envelope_Min_Max)
  have flat: "fst ?m = 0 \<and> snd ?m = 0 \<and> y1_px (fst ?m) h = unat h div 2 \<and>
      y2_px (snd ?m) h = unat h div 2 \<and> (\<forall>y < get_height img. get_pixel img' x y = bg_color)"
    if silent: "frames_read wav (nat fpp) = 0 \<or> (\<forall>s \<in> set ?xs. s = 0)"
  proof -
    have "\<forall>s \<in> set ?xs. s = 0" using silent by (auto simp add: left_channel_def)
    then have m: "?m = (0, 0)" unfolding column_min_max_def by (rule envelope_silent)
    have "get_pixel img' x y = bg_color" if "y < get_height img" for y
      using render_column_Inr(7) [OF assms(4,1,2,3) assms(3) that]
      by (auto simp add: get_pixel_def column_pixel_def m y1_px_silent y2_px_silent)
    then show ?thesis by (simp add: m y1_px_silent y2_px_silent)
  qed
  show ?thesis using rd mm flat by blast
qed

theorem silent_column_is_flat_witness:
  "well_formed (sized_image 1 4) \<and> unat (4 :: 32 word) = get_height (sized_image 1 4) \<and>
   (\<exists>wav' block' img'.
      render_column 4 white black 2 0 (silent_wav, [0, 0], sized_image 1 4) = Inr (wav', block', img') \<and>
      read_min_max silent_wav [0, 0] 2 = Inr ((0, 0), block', wav') \<and>
      y1_px 0 4 = 2 \<and> y2_px 0 4 = 2 \<and> get_pixel img' 0 1 = white \<and> get_pixel img' 0 2 = white)"
proof -
  have wf: "well_formed (sized_image 1 4)" by (simp add: well_formed_sized_image)
  have h: "unat (4 :: 32 word) = get_height (sized_image 1 4)" by simp
  have x: "0 < get_width (sized_image 1 4)" by simp
  have "\<exists>s'. render_column 4 white black 2 0 (silent_wav, [0, 0], sized_image 1 4) = Inr s'"
    using wf h x by (rule render_column_completes) (simp_all add: silent_wav_def channels_def)
  then obtain wav' block' img'
    where run: "render_column 4 white black 2 0 (silent_wav, [0, 0], sized_image 1 4)
      = Inr (wav', block', img')"
    by (metis prod_cases3)
  have silent: "\<forall>s \<in> set (left_channel (channels silent_wav) (frames_read silent_wav (nat 2))
      (unread silent_wav)). s = 0"
    by (auto simp add: left_channel_def silent_wav_def channels_def frames_read_def nth_Cons')
  from silent_column_is_flat [OF wf h x run] silent
  obtain mn mx where "read_min_max silent_wav [0, 0] 2 = Inr ((mn, mx), block', wav')"
    and "mn = 0" "mx = 0" "y1_px mn 4 = 2" "y2_px mx 4 = 2"
    and "get_pixel img' 0 1 = white" "get_pixel img' 0 2 = white"
    by auto
  then show ?thesis using wf run by auto
qed

text \<open>
  C6. The claim: a column with \<open>max = +full_scale\<close> and \<open>min = 0\<close> has \<open>y2 = h\<close>, and a
  column with \<open>min = -full_scale\<close> and \<open>max = 0\<close> has \<open>y1 = 0\<close>. The samples are of type
  \<^verbatim>\<open>short\<close> with full scale \<open>2^15 = 32768\<close>: no sample equals \<open>+full_scale\<close>
  (\<open>sample_range\<close>), so that no column of the program meets the condition of the first
  half, and the lowest sample is \<open>-full_scale\<close>. For a column that holds it the program
  computes \<open>-min * h\<close> in 32-bit unsigned arithmetic: at height \<open>2^17 = 131072\<close> the
  product \<open>32768 * 131072 = 2^32\<close> wraps around to 0 and \<open>y1 = 65536 = h/2\<close>, not 0; the
  ink span from \<open>y1\<close> to \<open>y2 = 65536\<close> is empty and the top row of the column is in the
  background colour. Below that height such a column has \<open>y1 = 0\<close> (\<open>y1_px_lowest\<close>).
\<close>

theorem lowest_sample_misses_top_edge:
  "sint (0x8000 :: sample_type) = - uint sample_scale \<and>
   envelope [0x8000] = (0x8000, 0) \<and>
   y1_px 0x8000 131072 = 65536 \<and>
   column_span 131072 0x8000 0 = Inr (65536, 65536) \<and>
   column_pixel 131072 white black (0x8000, 0) 0 = white"
  by (simp add: envelope_def min_max_step_def std_min_def std_max_def word_sless_alt
      column_span_def column_pixel_def y1_px_def y2_px_def clamp_def sample_scale_def)

text \<open>
  C7. With a frame count of 0 and a buffer at least one column wide, as the
  configuration requires, the renderer paints into a fresh image of width 1, every read
  returns no frames, every column has minimum and maximum 0, and the renderer completes
  with every pixel of the result in the background colour. (A buffer of width 0 stops
  at the assertion of line 90, \<open>zero_width_fails\<close>.)
\<close>

theorem no_frames_renders_background:
  assumes "well_formed out_image" and "0 < get_width out_image"
    and "consistent wav" and "frames wav = 0"
  shows "not_enough_samples wav out_image \<and>
    render_target wav out_image = sized_image 1 (get_height out_image) \<and>
    (\<forall>x k. frames_read (source_at (frames_per_pixel wav (render_target wav out_image)) x wav) k = 0) \<and>
    (\<forall>x. column_envelope wav out_image x = (0, 0)) \<and>
    (\<exists>res. compute_waveform wav out_image bg_color fg_color = Inr res \<and>
       get_width res = get_width out_image \<and> get_height res = get_height out_image \<and>
       (\<forall>x < get_width out_image. \<forall>y < get_height out_image. get_pixel res x y = bg_color))"
proof -
  have ne: "not_enough_samples wav out_image"
    using assms(2,4) by (simp add: not_enough_samples_def)
  have tgt: "render_target wav out_image = sized_image 1 (get_height out_image)"
    using render_target_props(6) [OF assms(1) ne] assms(4) by simp
  have env: "column_envelope wav out_image x = (0, 0)" for x
    unfolding column_envelope_def using assms(3,4) by (rule consistent_no_frames(3))
  have "\<forall>x < render_width wav out_image. \<exists>s.
           column_span (render_height out_image) (fst (column_envelope wav out_image x))
             (snd (column_envelope wav out_image x)) = Inr s"
    by (simp add: env column_span_silent)
  moreover have "product_in_range wav out_image"
  proof (rule product_in_range_short)
    show "0 \<le> sint (sf_channels wav)" using assms(3) by (simp add: consistent_def channels_def)
    show "0 \<le> frames wav" using assms(4) by simp
    show "sint (sf_channels wav) * max 1 (frames wav) < 2147483648"
      using sint_lt [of "sf_channels wav"] assms(4) by simp
  qed
  ultimately have "\<exists>res. compute_waveform wav out_image bg_color fg_color = Inr res"
    using assms(1,2) by (intro compute_waveform_total)
  then
  obtain res where run: "compute_waveform wav out_image bg_color fg_color = Inr res" by blast
  note c = compute_waveform_Inr [OF run assms(1)]
  have "get_pixel res x y = bg_color"
    if "x < get_width out_image" "y < get_height out_image" for x y
    using c(4) [OF that]
    by (auto simp add: get_pixel_def rendered_pixel_def column_pixel_def env y1_px_silent y2_px_silent)
  then show ?thesis
    using ne tgt env run c(2,3) consistent_no_frames(2) [OF assms(3,4)] by simp
qed

theorem no_frames_renders_background_witness:
  "well_formed (sized_image 3 2) \<and> consistent empty_wav \<and> frames empty_wav = 0 \<and>
   (\<exists>res. compute_waveform empty_wav (sized_image 3 2) white black = Inr res \<and>
      get_pixel res 2 1 = white)"
proof -
  have wf: "well_formed (sized_image 3 2)" by (simp add: well_formed_sized_image)
  have c: "consistent empty_wav" "frames empty_wav = 0"
    by (simp_all add: consistent_def channels_def empty_wav_def)
  from no_frames_renders_background [OF wf _ c, of white black]
  obtain res where "compute_waveform empty_wav (sized_image 3 2) white black = Inr res"
    and "get_pixel res 2 1 = white"
    by auto
  then show ?thesis using wf c by blast
qed




text \<open>
  C9. Rendering is deterministic: two runs on the same audio source with the same
  width, height, foreground and background colour end in the same way, with the same
  failure or with the same pixel content, whatever the two buffers held before.
\<close>

theorem rendering_is_deterministic:
  assumes "well_formed out1" and "well_formed out2" and "same_shape out1 out2"
  shows "map_sum id pixels (compute_waveform wav out1 bg fg) =
         map_sum id pixels (compute_waveform wav out2 bg fg)"
proof (cases "compute_waveform wav out1 bg fg")
  case (Inl e)
  then show ?thesis
    using compute_waveform_rel [OF assms(3), of wav bg fg]
    by (cases "compute_waveform wav out2 bg fg") simp_all
next
  case (Inr res1)
  then obtain res2 where r2: "compute_waveform wav out2 bg fg = Inr res2"
    using compute_waveform_rel [OF assms(3), of wav bg fg]
    by (cases "compute_waveform wav out2 bg fg") simp_all
  note a = compute_waveform_Inr [OF Inr assms(1)]
  note b = compute_waveform_Inr [OF r2 assms(2)]
  have s: "get_width out1 = get_width out2" "get_height out1 = get_height out2"
    using assms(3) by (simp_all add: same_shape_def)
  have "pixels res1 = pixels res2"
  proof (rule pixels_eqI [OF a(1) b(1)])
    show "same_shape res1 res2" using a(2,3) b(2,3) s by (simp add: same_shape_def)
    fix x y assume "x < get_width res1" "y < get_height res1"
    then have xy: "x < get_width out1" "y < get_height out1" using a(2,3) by simp_all
    then have xy2: "x < get_width out2" "y < get_height out2" using s by simp_all
    show "get_pixel res1 x y = get_pixel res2 x y"
      using a(4) [OF xy] b(4) [OF xy2] shape_cong(3,7) [OF assms(3)]
      by (simp add: get_pixel_def s)
  qed
  then show ?thesis using Inr r2 by simp
qed

theorem rendering_is_deterministic_witness:
  "map_sum id pixels (compute_waveform example_wav (sized_image 2 4) white black) =
   map_sum id pixels
     (compute_waveform example_wav (put_pixel (sized_image 2 4) 1 3 black) white black)"
  using rendering_is_deterministic [of "sized_image 2 4" "put_pixel (sized_image 2 4) 1 3 black"
      example_wav white black]
  by (simp add: well_formed_sized_image well_formed_put_pixel same_shape_def)

text \<open>
  C10. The claim: the assertions \<open>0 \<le> y1 \<le> h/2 \<le> y2 \<le> h\<close> hold for every column.
  The sum \<open>h + max * h / full_scale\<close> is a 32-bit unsigned value and wraps around for
  heights above \<open>2^32 - 2^17\<close>: at height \<open>4294967295\<close> a column whose highest sample
  is \<open>32767\<close> gets \<open>y2 = 65535\<close>, below \<open>h/2 = 2147483647\<close>, and the assertion of line
  127 fails. After the scan the minimum is at most 0 and the maximum at least 0
  (\<open>envelope_signs\<close>), the difference in \<open>y1\<close> never wraps (\<open>y1_px_le_half\<close>), and
  up to height \<open>2^32 - 2^17\<close> both assertions hold (\<open>column_span_no_wrap\<close>).
\<close>

theorem span_sum_wraps_at_huge_image:
  "y2_px 0x7FFF 4294967295 = 65535 \<and> unat ((4294967295 :: 32 word) div 2) = 2147483647 \<and>
   column_span 4294967295 0 0x7FFF = Inl (Assertion_failed 127)"
  by (simp add: column_span_def y1_px_def y2_px_def clamp_def sample_scale_def)

end
